theory Spec2Isabelle
  imports Main
begin

unbundle bit_operations_syntax

section \<open>Build-time configuration and machine integers\<close>

text \<open>
  \<^verbatim>\<open>Memory.cpp\<close> is compiled in one of three configurations (\<^verbatim>\<open>STATIC_POOL\<close>,
  \<^verbatim>\<open>DYNAMIC_POOL\<close>, or neither). The constants \<^verbatim>\<open>MAX_ALLOCATORS\<close> and
  \<^verbatim>\<open>NUM_BLOCKS\<close> come from a configuration header; \<^verbatim>\<open>sizeof(Allocator* )\<close> and the width
  of \<^verbatim>\<open>size_t\<close> come from the target. All of them are parameters of the model.
  \<^verbatim>\<open>HEAP_BLOCKS\<close> is the capacity of a bank built by \<^verbatim>\<open>new Allocator(blockSize)\<close>.
\<close>

datatype pool_mode = STATIC_POOL | DYNAMIC_POOL | NO_POOL

record config =
  pool :: pool_mode
  MAX_ALLOCATORS :: nat
  NUM_BLOCKS :: nat
  ptr_size :: nat
  size_t_bits :: nat
  HEAP_BLOCKS :: nat

text \<open>\<^verbatim>\<open>size32_type\<close> is an unsigned 32-bit integer, \<^verbatim>\<open>size_type\<close> is \<^verbatim>\<open>uint16_t\<close>
  (\<^verbatim>\<open>Types.h\<close>). Values are naturals; every operation that can wrap is written with
  the reduction it performs.\<close>

definition u32 :: "nat \<Rightarrow> nat" where
  "u32 x = x mod 2 ^ 32"

definition u16 :: "nat \<Rightarrow> nat" where
  "u16 x = x mod 2 ^ 16"

text \<open>\<^verbatim>\<open>static constexpr size_type required_extra_buffer = sizeof(Allocator* )\<close>\<close>

definition required_extra_buffer :: "config \<Rightarrow> nat" where
  "required_extra_buffer cfg = u16 (ptr_size cfg)"

section \<open>Banks\<close>

text \<open>
  A block is named by the registry slot of the bank that owns it and its number inside
  that bank. The raw block pointer and the client pointer (one machine word further)
  are both represented by this name; the prefix word of the block is kept apart, in
  \<open>tag\<close> below.
\<close>

type_synonym blk = "nat \<times> nat"

text \<open>
  Modelled from the spec: the class \<^verbatim>\<open>Allocator\<close> and its two pool subclasses
  (\<^verbatim>\<open>Allocator.h\<close>, \<^verbatim>\<open>StaticAllocatorPool.h\<close>, \<^verbatim>\<open>DynamicAllocatorPool.h\<close>) are not among
  the sources. A bank has a block size, a capacity, the count of blocks handed out and a
  free list used as a stack. A Static bank starts with all its blocks on the free list.
  A Dynamic bank starts with none and asks the raw heap for \<open>block_size\<close> bytes when
  its free list is empty and fewer than \<open>capacity\<close> blocks are handed out.
  \<open>acquired\<close> counts the regions a Dynamic bank obtained so far.
\<close>

record allocator =
  block_size :: nat
  capacity :: nat
  in_use :: nat
  free_list :: "blk list"
  dynamic :: bool
  acquired :: nat

definition GetBlockSize :: "allocator \<Rightarrow> nat" where
  "GetBlockSize a = block_size a"

definition GetTotalBlocks :: "allocator \<Rightarrow> nat" where
  "GetTotalBlocks a = capacity a"

definition GetNumAllocations :: "allocator \<Rightarrow> nat" where
  "GetNumAllocations a = in_use a"

definition StaticAllocatorPool :: "nat \<Rightarrow> nat \<Rightarrow> nat \<Rightarrow> allocator" where
  "StaticAllocatorPool slot bs n =
     \<lparr>block_size = bs, capacity = n, in_use = 0,
      free_list = map (Pair slot) [0..<n], dynamic = False, acquired = 0\<rparr>"

definition DynamicAllocatorPool :: "nat \<Rightarrow> nat \<Rightarrow> allocator" where
  "DynamicAllocatorPool bs n =
     \<lparr>block_size = bs, capacity = n, in_use = 0,
      free_list = [], dynamic = True, acquired = 0\<rparr>"

text \<open>
  \<open>Allocate this a heap\<close>: \<open>this\<close> is the slot of the bank, \<open>heap\<close> the number of
  bytes the raw heap can still supply. The result is the block (or \<open>None\<close> for a null
  pointer), the bank afterwards and the raw heap afterwards. A failed call changes
  neither.
\<close>

definition Allocate :: "nat \<Rightarrow> allocator \<Rightarrow> nat \<Rightarrow> blk option \<times> allocator \<times> nat" where
  "Allocate this a heap =
     (case free_list a of
        b # bs \<Rightarrow> (Some b, a\<lparr>free_list := bs, in_use := in_use a + 1\<rparr>, heap)
      | [] \<Rightarrow>
          if dynamic a \<and> in_use a < capacity a \<and> block_size a \<le> heap
          then (Some (this, acquired a),
                a\<lparr>in_use := in_use a + 1, acquired := acquired a + 1\<rparr>,
                heap - block_size a)
          else (None, a, heap))"

text \<open>\<open>Deallocate\<close> pushes the block on the free list. Its precondition (the block
  came from this bank and is handed out) is the caller's duty.\<close>

definition Deallocate :: "allocator \<Rightarrow> blk \<Rightarrow> allocator" where
  "Deallocate a b = a\<lparr>free_list := b # free_list a, in_use := in_use a - 1\<rparr>"

text \<open>Destroying a Dynamic bank releases every block on its free list.\<close>

definition released :: "allocator \<Rightarrow> nat" where
  "released a = (if dynamic a then length (free_list a) * block_size a else 0)"

section \<open>The allocator state\<close>

text \<open>
  \<open>allocators\<close> is the array \<^verbatim>\<open>_allocators[MAX_ALLOCATORS]\<close>; \<open>None\<close> is a null entry.
  An \<^verbatim>\<open>Allocator*\<close> that is handed around is the index of the slot that holds the object.
  \<open>orphans\<close> are the \<^verbatim>\<open>Allocator\<close> objects created with \<^verbatim>\<open>new\<close> that no slot points to
  and that were never deleted. \<open>tag\<close> is the prefix word of each block as an
  \<^verbatim>\<open>Allocator*\<close> (\<open>None\<close> when the word holds no such pointer), \<open>bytes\<close> is the
  client region of each block, \<open>raw_heap\<close> is what the raw heap can still supply.
  \<open>inits\<close> and \<open>destroys\<close> count the calls of \<^verbatim>\<open>memory_init\<close> and
  \<^verbatim>\<open>memory_destroy\<close>.
\<close>

record mstate =
  allocators :: "allocator option list"
  m_srefCount :: int
  orphans :: "allocator list"
  tag :: "blk \<Rightarrow> nat option"
  bytes :: "blk \<Rightarrow> nat \<Rightarrow> nat"
  raw_heap :: nat
  inits :: nat
  destroys :: nat

datatype error = NullDeref | BadPointer

text \<open>Reading \<^verbatim>\<open>_allocators[i]\<close>.\<close>

definition slot_at :: "allocator option list \<Rightarrow> nat \<Rightarrow> allocator option" where
  "slot_at arr i = (if i < length arr then arr ! i else None)"

section \<open>Bootstrap\<close>

text \<open>\<^verbatim>\<open>RestrictSize::apply<pow, blockSize>()\<close>\<close>

definition numRestrictions :: nat where
  "numRestrictions = 3"

definition powOffsetFromZero :: nat where
  "powOffsetFromZero = 9"

definition restrictions :: "nat list" where
  "restrictions = [300, 400, 500]"

definition RestrictSize_apply :: "nat \<Rightarrow> nat \<Rightarrow> nat" where
  "RestrictSize_apply pw blockSize =
     (if pw \<ge> powOffsetFromZero \<and> pw < powOffsetFromZero + numRestrictions
      then restrictions ! (pw - powOffsetFromZero)
      else blockSize)"

text \<open>
  \<^verbatim>\<open>insert<powStart, from, to>::apply()\<close>: the template recursion from \<open>frm\<close> up to
  \<open>lim\<close>, the terminal specialisation being \<open>frm = lim\<close>. \<^verbatim>\<open>1 << curr_pow\<close> is
  evaluated at compile time and converted to \<^verbatim>\<open>size32_type\<close>. Without a pool both
  bodies store nothing.
\<close>

definition pool_bank :: "config \<Rightarrow> nat \<Rightarrow> nat \<Rightarrow> allocator option list \<Rightarrow> allocator option list" where
  "pool_bank cfg powStart frm arr =
     (let curr_pow = frm + powStart;
          blockSize = RestrictSize_apply curr_pow (u32 (2 ^ curr_pow))
      in case pool cfg of
           DYNAMIC_POOL \<Rightarrow> arr[frm := Some (DynamicAllocatorPool blockSize (NUM_BLOCKS cfg))]
         | STATIC_POOL \<Rightarrow> arr[frm := Some (StaticAllocatorPool frm blockSize (NUM_BLOCKS cfg))]
         | NO_POOL \<Rightarrow> arr)"

function insert_apply :: "config \<Rightarrow> nat \<Rightarrow> nat \<Rightarrow> nat \<Rightarrow> allocator option list \<Rightarrow> allocator option list" where
  "insert_apply cfg powStart frm lim arr =
     (if frm < lim
      then insert_apply cfg powStart (frm + 1) lim (pool_bank cfg powStart frm arr)
      else pool_bank cfg powStart frm arr)"
  by pat_completeness auto
termination
  by (relation "measure (\<lambda>(cfg, powStart, frm, lim, arr). lim - frm)") auto

declare insert_apply.simps [simp del]

text \<open>\<^verbatim>\<open>static_cast<uint16_t>(log2(required_extra_buffer) + 1)\<close>: the integer part of the
  binary logarithm, plus one.\<close>

fun ilog2 :: "nat \<Rightarrow> nat" where
  "ilog2 n = (if n < 2 then 0 else Suc (ilog2 (n div 2)))"

declare ilog2.simps [simp del]

definition powStart_of :: "config \<Rightarrow> nat" where
  "powStart_of cfg = ilog2 (required_extra_buffer cfg) + 1"

definition memory_init :: "config \<Rightarrow> mstate \<Rightarrow> mstate" where
  "memory_init cfg st =
     st\<lparr>allocators := insert_apply cfg (powStart_of cfg) 0 (MAX_ALLOCATORS cfg - 1) (allocators st),
        inits := inits st + 1\<rparr>"

text \<open>\<^verbatim>\<open>memory_destroy\<close>: delete and null every entry up to the first null one.\<close>

fun destroy_loop :: "allocator option list \<Rightarrow> allocator option list \<times> nat" where
  "destroy_loop [] = ([], 0)"
| "destroy_loop (None # rest) = (None # rest, 0)"
| "destroy_loop (Some a # rest) =
     (case destroy_loop rest of (rest', r) \<Rightarrow> (None # rest', released a + r))"

definition memory_destroy :: "mstate \<Rightarrow> mstate" where
  "memory_destroy st =
     (case destroy_loop (allocators st) of
        (arr, r) \<Rightarrow> st\<lparr>allocators := arr, raw_heap := raw_heap st + r,
                       destroys := destroys st + 1\<rparr>)"

text \<open>The constructor and the destructor of \<^verbatim>\<open>MemoryInitDestroy\<close>.\<close>

definition MemoryInitDestroy_ctor :: "config \<Rightarrow> mstate \<Rightarrow> mstate" where
  "MemoryInitDestroy_ctor cfg st =
     (let old = m_srefCount st; st1 = st\<lparr>m_srefCount := old + 1\<rparr>
      in if old = 0 then memory_init cfg st1 else st1)"

definition MemoryInitDestroy_dtor :: "mstate \<Rightarrow> mstate" where
  "MemoryInitDestroy_dtor st =
     (let st1 = st\<lparr>m_srefCount := m_srefCount st - 1\<rparr>
      in if m_srefCount st1 = 0 then memory_destroy st1 else st1)"

text \<open>The state at program start: the static array is zero-initialised.\<close>

definition start_state :: "config \<Rightarrow> nat \<Rightarrow> mstate" where
  "start_state cfg heap =
     \<lparr>allocators = replicate (MAX_ALLOCATORS cfg) None, m_srefCount = 0, orphans = [],
      tag = (\<lambda>b. None), bytes = (\<lambda>b i. 0), raw_heap = heap, inits = 0, destroys = 0\<rparr>"

section \<open>Registry lookup and insertion\<close>

text \<open>\<^verbatim>\<open>find_allocator\<close>: the scan stops at the first null entry; with a pool the first
  bank that is large enough matches, without one only a bank of exactly that size.\<close>

fun find_from :: "config \<Rightarrow> nat \<Rightarrow> allocator option list \<Rightarrow> nat \<Rightarrow> nat option" where
  "find_from cfg i [] sz = None"
| "find_from cfg i (None # rest) sz = None"
| "find_from cfg i (Some a # rest) sz =
     (if (if pool cfg = NO_POOL then GetBlockSize a = sz else GetBlockSize a \<ge> sz)
      then Some i
      else find_from cfg (Suc i) rest sz)"

definition find_allocator :: "config \<Rightarrow> mstate \<Rightarrow> nat \<Rightarrow> nat option" where
  "find_allocator cfg st sz = find_from cfg 0 (allocators st) sz"

text \<open>\<^verbatim>\<open>insert_allocator\<close>: store the pointer in the first null entry; \<open>None\<close> is the
  result \<^verbatim>\<open>false\<close>.\<close>

fun insert_from :: "nat \<Rightarrow> allocator option list \<Rightarrow> allocator \<Rightarrow> (allocator option list \<times> nat) option" where
  "insert_from i [] a = None"
| "insert_from i (None # rest) a = Some (Some a # rest, i)"
| "insert_from i (Some b # rest) a =
     (case insert_from (Suc i) rest a of
        None \<Rightarrow> None
      | Some (rest', j) \<Rightarrow> Some (Some b # rest', j))"

definition insert_allocator :: "mstate \<Rightarrow> allocator \<Rightarrow> (mstate \<times> nat) option" where
  "insert_allocator st a =
     (case insert_from 0 (allocators st) a of
        None \<Rightarrow> None
      | Some (arr, j) \<Rightarrow> Some (st\<lparr>allocators := arr\<rparr>, j))"

section \<open>Bucketing\<close>

text \<open>
  \<^verbatim>\<open>nextHigher<T>(k)\<close> for an unsigned type of \<open>w\<close> bits. The loop variable \<open>i\<close> runs
  through 1, 2, 4, ... while it is below \<open>w\<close>; it is kept as its exponent \<open>j\<close>.
\<close>

function nextHigher_loop :: "nat \<Rightarrow> nat \<Rightarrow> nat \<Rightarrow> nat" where
  "nextHigher_loop w j k =
     (if 2 ^ j < w then nextHigher_loop w (Suc j) (k OR drop_bit (2 ^ j) k) else k)"
  by pat_completeness auto
termination
  by (relation "measure (\<lambda>(w, j, k). w - 2 ^ j)") (auto intro!: diff_less_mono2)

declare nextHigher_loop.simps [simp del]

definition nextHigher :: "nat \<Rightarrow> nat \<Rightarrow> nat" where
  "nextHigher w k = (nextHigher_loop w 0 ((k + 2 ^ w - 1) mod 2 ^ w) + 1) mod 2 ^ w"

text \<open>The bucket \<^verbatim>\<open>memory_get_allocator\<close> computes for a request of \<open>sz\<close> bytes.\<close>

definition bucket :: "config \<Rightarrow> nat \<Rightarrow> nat" where
  "bucket cfg sz =
     (let blockSize = u32 (sz + required_extra_buffer cfg)
      in if pool cfg = NO_POOL
         then (if blockSize > 256 \<and> blockSize \<le> 396 then 396
               else if blockSize > 512 \<and> blockSize \<le> 768 then 768
               else u32 (nextHigher (size_t_bits cfg) (blockSize mod 2 ^ size_t_bits cfg)))
         else blockSize)"

text \<open>\<^verbatim>\<open>new Allocator(blockSize)\<close>, the bank built on demand.\<close>

definition new_Allocator :: "config \<Rightarrow> nat \<Rightarrow> allocator" where
  "new_Allocator cfg blockSize = DynamicAllocatorPool blockSize (HEAP_BLOCKS cfg)"

definition memory_get_allocator :: "config \<Rightarrow> mstate \<Rightarrow> nat \<Rightarrow> mstate \<times> nat option" where
  "memory_get_allocator cfg st sz =
     (let blockSize = bucket cfg sz
      in case find_allocator cfg st blockSize of
           Some i \<Rightarrow> (st, Some i)
         | None \<Rightarrow>
             if pool cfg = NO_POOL
             then (let a = new_Allocator cfg blockSize
                   in case insert_allocator st a of
                        None \<Rightarrow> (st\<lparr>orphans := a # orphans st\<rparr>, None)
                      | Some (st', j) \<Rightarrow> (st', Some j))
             else (st, None))"

section \<open>The Router: alloc, free, realloc\<close>

text \<open>\<^verbatim>\<open>set_block_allocator\<close> writes the owner into the prefix word and returns the client
  pointer; \<^verbatim>\<open>get_block_allocator\<close> reads the prefix word; \<^verbatim>\<open>get_block_ptr\<close> steps back
  to the raw block.\<close>

definition set_block_allocator :: "mstate \<Rightarrow> blk \<Rightarrow> nat \<Rightarrow> mstate \<times> blk" where
  "set_block_allocator st block a = (st\<lparr>tag := (tag st)(block := Some a)\<rparr>, block)"

definition get_block_allocator :: "mstate \<Rightarrow> blk \<Rightarrow> nat option" where
  "get_block_allocator st block = tag st block"

definition get_block_ptr :: "blk \<Rightarrow> blk" where
  "get_block_ptr block = block"

text \<open>
  \<^verbatim>\<open>__memory_alloc\<close>. The function calls itself on the spill-up path; \<open>fuel\<close> bounds the
  number of nested calls, and \<open>None\<close> means the bound was reached. A result
  \<open>Some (Inl e)\<close> is a crash, \<open>Some (Inr (st', p))\<close> a return of the pointer \<open>p\<close>
  (\<open>None\<close> for null) in the state \<open>st'\<close>.
\<close>

fun memory_alloc :: "nat \<Rightarrow> config \<Rightarrow> mstate \<Rightarrow> nat \<Rightarrow> (error + mstate \<times> blk option) option" where
  "memory_alloc 0 cfg st sz = None"
| "memory_alloc (Suc fuel) cfg st sz =
     (case memory_get_allocator cfg st sz of
        (st1, None) \<Rightarrow> Some (Inr (st1, None))
      | (st1, Some i) \<Rightarrow>
          (case slot_at (allocators st1) i of
             None \<Rightarrow> Some (Inl NullDeref)
           | Some a \<Rightarrow>
               (case Allocate i a (raw_heap st1) of
                  (None, a', heap') \<Rightarrow>
                    (let currBlockSize = GetBlockSize a
                     in case slot_at (allocators st1) (MAX_ALLOCATORS cfg - 1) of
                          None \<Rightarrow> Some (Inl NullDeref)
                        | Some l \<Rightarrow>
                            if currBlockSize < GetBlockSize l
                            then memory_alloc fuel cfg st1 (u32 (currBlockSize + 1))
                            else Some (Inr (st1, None)))
                | (Some blockMemoryPtr, a', heap') \<Rightarrow>
                    (let st2 = st1\<lparr>allocators := (allocators st1)[i := Some a'],
                                   raw_heap := heap'\<rparr>;
                         (st3, clientsMemoryPtr) = set_block_allocator st2 blockMemoryPtr i
                     in Some (Inr (st3, Some clientsMemoryPtr))))))"

text \<open>The state in which \<^verbatim>\<open>__memory_alloc\<close> returns a block \<open>b\<close> taken from the bank in slot
  \<open>i\<close>: the bank and the raw heap as \<open>Allocate\<close> left them, the prefix word written.\<close>

definition commit :: "mstate \<Rightarrow> nat \<Rightarrow> allocator \<Rightarrow> nat \<Rightarrow> blk \<Rightarrow> mstate" where
  "commit st1 i a' h' b =
     fst (set_block_allocator (st1\<lparr>allocators := (allocators st1)[i := Some a'], raw_heap := h'\<rparr>) b i)"

text \<open>
  \<^verbatim>\<open>__memory_free\<close>. The prefix word is read as an \<^verbatim>\<open>Allocator*\<close>; a word that holds
  none, or one that points to no bank, is a call on a bad pointer. Pushing the block on
  the free list reuses its prefix word as the link.
\<close>

definition memory_free :: "mstate \<Rightarrow> blk option \<Rightarrow> error + mstate" where
  "memory_free st ptr =
     (case ptr of
        None \<Rightarrow> Inr st
      | Some p \<Rightarrow>
          (case get_block_allocator st p of
             None \<Rightarrow> Inl BadPointer
           | Some i \<Rightarrow>
               (case slot_at (allocators st) i of
                  None \<Rightarrow> Inl BadPointer
                | Some a \<Rightarrow>
                    Inr (st\<lparr>allocators := (allocators st)[i := Some (Deallocate a (get_block_ptr p))],
                            tag := (tag st)(p := None)\<rparr>))))"

text \<open>\<^verbatim>\<open>memcpy(dst, src, n)\<close> on client regions.\<close>

definition memcpy :: "mstate \<Rightarrow> blk \<Rightarrow> blk \<Rightarrow> nat \<Rightarrow> mstate" where
  "memcpy st dst src n =
     st\<lparr>bytes := (bytes st)(dst := (\<lambda>j. if j < n then bytes st src j else bytes st dst j))\<rparr>"

text \<open>The number of bytes \<^verbatim>\<open>__memory_realloc\<close> copies: \<^verbatim>\<open>oldSize\<close> is a \<^verbatim>\<open>size_type\<close>,
  the difference is taken in unsigned arithmetic.\<close>

definition realloc_oldSize :: "config \<Rightarrow> allocator \<Rightarrow> nat" where
  "realloc_oldSize cfg oldAllocator =
     u16 (GetBlockSize oldAllocator + 2 ^ 16 - ptr_size cfg mod 2 ^ 16)"

definition memory_realloc :: "nat \<Rightarrow> config \<Rightarrow> mstate \<Rightarrow> blk option \<Rightarrow> nat \<Rightarrow> (error + mstate \<times> blk option) option" where
  "memory_realloc fuel cfg st oldMem sz =
     (case oldMem of
        None \<Rightarrow> memory_alloc fuel cfg st sz
      | Some old \<Rightarrow>
          if sz = 0
          then (case memory_free st (Some old) of
                  Inl e \<Rightarrow> Some (Inl e)
                | Inr st' \<Rightarrow> Some (Inr (st', None)))
          else (case memory_alloc fuel cfg st sz of
                  None \<Rightarrow> None
                | Some (Inl e) \<Rightarrow> Some (Inl e)
                | Some (Inr (st1, None)) \<Rightarrow> Some (Inr (st1, None))
                | Some (Inr (st1, Some newMem)) \<Rightarrow>
                    (case get_block_allocator st1 old of
                       None \<Rightarrow> Some (Inl BadPointer)
                     | Some i \<Rightarrow>
                         (case slot_at (allocators st1) i of
                            None \<Rightarrow> Some (Inl BadPointer)
                          | Some oldAllocator \<Rightarrow>
                              (let oldSize = realloc_oldSize cfg oldAllocator;
                                   st2 = memcpy st1 newMem old (if oldSize < sz then oldSize else sz)
                               in case memory_free st2 (Some old) of
                                    Inl e \<Rightarrow> Some (Inl e)
                                  | Inr st3 \<Rightarrow> Some (Inr (st3, Some newMem)))))))"

section \<open>Stats\<close>

text \<open>\<^verbatim>\<open>getTotalMemoryUsed\<close> and \<^verbatim>\<open>getTotalMemoryAvailable\<close> visit every entry of the
  array and call through it without a null check; the total is a \<^verbatim>\<open>size32_type\<close>.\<close>

fun used_loop :: "allocator option list \<Rightarrow> nat \<Rightarrow> error + nat" where
  "used_loop [] totalMemory = Inr totalMemory"
| "used_loop (None # rest) totalMemory = Inl NullDeref"
| "used_loop (Some a # rest) totalMemory =
     used_loop rest (u32 (totalMemory + GetNumAllocations a * GetBlockSize a))"

definition getTotalMemoryUsed :: "mstate \<Rightarrow> error + nat" where
  "getTotalMemoryUsed st = used_loop (allocators st) 0"

fun available_loop :: "allocator option list \<Rightarrow> nat \<Rightarrow> error + nat" where
  "available_loop [] totalMemory = Inr totalMemory"
| "available_loop (None # rest) totalMemory = Inl NullDeref"
| "available_loop (Some a # rest) totalMemory =
     available_loop rest (u32 (totalMemory + GetTotalBlocks a * GetBlockSize a))"

definition getTotalMemoryAvailable :: "mstate \<Rightarrow> error + nat" where
  "getTotalMemoryAvailable st = available_loop (allocators st) 0"

section \<open>Lifetimes of the init object\<close>

text \<open>A run of constructions and destructions of \<^verbatim>\<open>MemoryInitDestroy\<close> objects.\<close>

datatype event = Construct | Destruct

fun step_event :: "config \<Rightarrow> event \<Rightarrow> mstate \<Rightarrow> mstate" where
  "step_event cfg Construct st = MemoryInitDestroy_ctor cfg st"
| "step_event cfg Destruct st = MemoryInitDestroy_dtor st"

fun run_events :: "config \<Rightarrow> event list \<Rightarrow> mstate \<Rightarrow> mstate" where
  "run_events cfg [] st = st"
| "run_events cfg (e # es) st = run_events cfg es (step_event cfg e st)"

fun delta :: "event \<Rightarrow> int" where
  "delta Construct = 1"
| "delta Destruct = - 1"

text \<open>\<open>live_inside c es\<close>: started with \<open>c\<close> live objects, the run \<open>es\<close> keeps at least
  one object alive until its last event, which may destroy the last one.\<close>

fun live_inside :: "int \<Rightarrow> event list \<Rightarrow> bool" where
  "live_inside c [] = True"
| "live_inside c [e] = (0 \<le> c + delta e)"
| "live_inside c (e # es) = (0 < c + delta e \<and> live_inside (c + delta e) es)"

section \<open>Example configurations\<close>

text \<open>The configuration of the end-to-end scenarios: Static pool, eight banks of four
  blocks, a word of four bytes.\<close>

definition cfgS :: config where
  "cfgS = \<lparr>pool = STATIC_POOL, MAX_ALLOCATORS = 8, NUM_BLOCKS = 4, ptr_size = 4,
           size_t_bits = 32, HEAP_BLOCKS = 0\<rparr>"

section \<open>Reachable states and their invariants\<close>

text \<open>
  The largest exponent the bootstrap templates shift by keeps \<^verbatim>\<open>1 << curr_pow\<close> inside
  \<^verbatim>\<open>int\<close>: the shift is a constant expression, so a configuration with a larger
  exponent does not compile. Without a pool the templates store nothing.
\<close>

definition bootable :: "config \<Rightarrow> bool" where
  "bootable cfg \<longleftrightarrow>
     pool cfg = NO_POOL \<or> powStart_of cfg + MAX_ALLOCATORS cfg - 1 \<le> 30"

text \<open>
  A platform the program can be built for: a pointer has at most 16 bytes and
  \<^verbatim>\<open>size_t\<close> has at least 16 bits (the least the language allows).
\<close>

definition valid_config :: "config \<Rightarrow> bool" where
  "valid_config cfg \<longleftrightarrow> ptr_size cfg \<le> 16 \<and> 16 \<le> size_t_bits cfg"

text \<open>The block sizes in Registry order, \<open>None\<close> for an empty slot; and the block sizes
  of the banks alone.\<close>

definition registry_sizes :: "mstate \<Rightarrow> nat option list" where
  "registry_sizes st = map (map_option GetBlockSize) (allocators st)"

fun present :: "'a option list \<Rightarrow> 'a list" where
  "present [] = []"
| "present (None # rest) = present rest"
| "present (Some x # rest) = x # present rest"

definition bank_sizes :: "mstate \<Rightarrow> nat list" where
  "bank_sizes st = present (registry_sizes st)"

text \<open>The banks fill a prefix of the array.\<close>

fun prefix_filled :: "'a option list \<Rightarrow> bool" where
  "prefix_filled [] = True"
| "prefix_filled (None # rest) = list_all (\<lambda>x. x = None) rest"
| "prefix_filled (Some x # rest) = prefix_filled rest"



definition well_formed :: "config \<Rightarrow> mstate \<Rightarrow> bool" where
  "well_formed cfg st \<longleftrightarrow>
     length (allocators st) = MAX_ALLOCATORS cfg \<and>
     prefix_filled (registry_sizes st) \<and>
     (if pool cfg = NO_POOL
      then distinct (bank_sizes st)
      else list_all (\<lambda>x. x \<noteq> None) (registry_sizes st) \<and> sorted_wrt (<) (bank_sizes st))"

text \<open>The state after Bootstrap: the first \<^verbatim>\<open>MemoryInitDestroy\<close> object is constructed at
  program start, with \<open>heap\<close> bytes in the raw heap.\<close>

definition bootstrap :: "config \<Rightarrow> nat \<Rightarrow> mstate" where
  "bootstrap cfg heap = MemoryInitDestroy_ctor cfg (start_state cfg heap)"

text \<open>A client stores a byte in the client region of a block.\<close>

definition client_write :: "mstate \<Rightarrow> blk \<Rightarrow> nat \<Rightarrow> nat \<Rightarrow> mstate" where
  "client_write st p off v = st\<lparr>bytes := (bytes st)(p := (bytes st p)(off := v))\<rparr>"

text \<open>The states after Bootstrap and any number of returning Router calls.\<close>

inductive reachable :: "config \<Rightarrow> mstate \<Rightarrow> bool" for cfg :: config where
  reach_boot: "reachable cfg (bootstrap cfg heap)"
| reach_alloc: "reachable cfg st \<Longrightarrow> memory_alloc fuel cfg st sz = Some (Inr (st', p)) \<Longrightarrow>
     reachable cfg st'"
| reach_free: "reachable cfg st \<Longrightarrow> memory_free st p = Inr st' \<Longrightarrow> reachable cfg st'"
| reach_realloc: "reachable cfg st \<Longrightarrow> memory_realloc fuel cfg st p sz = Some (Inr (st', q)) \<Longrightarrow>
     reachable cfg st'"
| reach_write: "reachable cfg st \<Longrightarrow> reachable cfg (client_write st p off v)"

text \<open>The block size Bootstrap gives the bank whose exponent is \<open>p\<close>.\<close>

definition pool_size :: "nat \<Rightarrow> nat" where
  "pool_size p = RestrictSize_apply p (u32 (2 ^ p))"

text \<open>Calls that are known to return: the state after \<^verbatim>\<open>alloc\<close>, the pointer it returned,
  and the state after a list of \<^verbatim>\<open>alloc\<close> calls.\<close>

definition alloc_state :: "nat \<Rightarrow> config \<Rightarrow> mstate \<Rightarrow> nat \<Rightarrow> mstate" where
  "alloc_state fuel cfg st sz =
     (case memory_alloc fuel cfg st sz of Some (Inr (st', p)) \<Rightarrow> st' | _ \<Rightarrow> st)"

definition alloc_ptr :: "nat \<Rightarrow> config \<Rightarrow> mstate \<Rightarrow> nat \<Rightarrow> blk option" where
  "alloc_ptr fuel cfg st sz =
     (case memory_alloc fuel cfg st sz of Some (Inr (st', p)) \<Rightarrow> p | _ \<Rightarrow> None)"

fun allocs :: "nat \<Rightarrow> config \<Rightarrow> mstate \<Rightarrow> nat list \<Rightarrow> mstate" where
  "allocs fuel cfg st [] = st"
| "allocs fuel cfg st (sz # szs) = allocs fuel cfg (alloc_state fuel cfg st sz) szs"

declare allocs.simps [simp del]

text \<open>On-demand banks, two registry slots, banks of at most two blocks.\<close>

definition cfgN :: config where
  "cfgN = \<lparr>pool = NO_POOL, MAX_ALLOCATORS = 2, NUM_BLOCKS = 4, ptr_size = 4,
           size_t_bits = 32, HEAP_BLOCKS = 2\<rparr>"

text \<open>A Static bank of the scenario configuration as Bootstrap builds it, in slot \<open>i\<close>.\<close>

definition bankS :: "nat \<Rightarrow> nat \<Rightarrow> allocator" where
  "bankS i bs = \<lparr>block_size = bs, capacity = 4, in_use = 0,
      free_list = [(i, 0), (i, 1), (i, 2), (i, 3)], dynamic = False, acquired = 0\<rparr>"

text \<open>A call that returned, and a call that returned the null pointer.\<close>

definition returns :: "(error + mstate \<times> blk option) option \<Rightarrow> bool" where
  "returns r = (case r of Some (Inr x) \<Rightarrow> True | _ \<Rightarrow> False)"

definition returns_null :: "(error + mstate \<times> blk option) option \<Rightarrow> bool" where
  "returns_null r = (case r of Some (Inr (st', None)) \<Rightarrow> True | _ \<Rightarrow> False)"

text \<open>
  Runs of constructions and destructions, read without the program: \<open>net es\<close> is the
  number of constructions less the number of destructions; \<open>balanced c es\<close> says that,
  started with \<open>c\<close> live objects, the run never destroys an object that does not exist;
  \<open>starts c es\<close> counts the constructions that find no live object and \<open>stops c es\<close> the
  destructions of the last live object.
\<close>

definition net :: "event list \<Rightarrow> int" where
  "net es = sum_list (map delta es)"

fun balanced :: "int \<Rightarrow> event list \<Rightarrow> bool" where
  "balanced c [] = True"
| "balanced c (e # es) = (0 \<le> c + delta e \<and> balanced (c + delta e) es)"

fun starts :: "int \<Rightarrow> event list \<Rightarrow> nat" where
  "starts c [] = 0"
| "starts c (e # es) = (if e = Construct \<and> c = 0 then 1 else 0) + starts (c + delta e) es"

fun stops :: "int \<Rightarrow> event list \<Rightarrow> nat" where
  "stops c [] = 0"
| "stops c (e # es) = (if e = Destruct \<and> c = 1 then 1 else 0) + stops (c + delta e) es"

text \<open>The block sizes of the pool that \<^verbatim>\<open>memory_init\<close> builds, in Registry order.\<close>

definition pool_sizes :: "config \<Rightarrow> nat option list" where
  "pool_sizes cfg = map (\<lambda>i. Some (pool_size (i + powStart_of cfg))) [0..<MAX_ALLOCATORS cfg]"

text \<open>The number of entries that \<^verbatim>\<open>memory_destroy\<close> visits: those before the first null
  entry.\<close>

definition leading_banks :: "allocator option list \<Rightarrow> nat" where
  "leading_banks arr = length (takeWhile (\<lambda>x. x \<noteq> None) arr)"

text \<open>The Registry while only the init objects act on it: a pool exactly while an
  object is alive.\<close>

definition boot_inv :: "config \<Rightarrow> mstate \<Rightarrow> bool" where
  "boot_inv cfg st \<longleftrightarrow>
     length (allocators st) = MAX_ALLOCATORS cfg \<and> 0 \<le> m_srefCount st \<and>
     registry_sizes st =
       (if pool cfg \<noteq> NO_POOL \<and> 0 < m_srefCount st then pool_sizes cfg
        else replicate (MAX_ALLOCATORS cfg) None)"

text \<open>A Dynamic pool of sixteen banks of ten thousand blocks.\<close>

definition cfgD :: config where
  "cfgD = \<lparr>pool = DYNAMIC_POOL, MAX_ALLOCATORS = 16, NUM_BLOCKS = 10000, ptr_size = 4,
           size_t_bits = 32, HEAP_BLOCKS = 0\<rparr>"

text \<open>The totals the Stats queries are meant to report.\<close>

definition used_bytes :: "mstate \<Rightarrow> nat" where
  "used_bytes st = sum_list (map (\<lambda>a. in_use a * block_size a) (present (allocators st)))"

definition available_bytes :: "mstate \<Rightarrow> nat" where
  "available_bytes st = sum_list (map (\<lambda>a. capacity a * block_size a) (present (allocators st)))"

section \<open>Properties\<close>

lemma u32_less [simp]: "u32 x < 2 ^ 32"
  by (simp add: u32_def)

subsection \<open>The next power of two\<close>









subsection \<open>Buckets\<close>

lemma reb_less: "required_extra_buffer cfg < 2 ^ 16"
  by (simp add: required_extra_buffer_def u16_def)







subsection \<open>The registry as a list\<close>

lemma all_None_present: "list_all (\<lambda>x. x = None) xs \<Longrightarrow> present xs = []"
  by (induction xs) auto

lemma all_None_prefix_filled: "list_all (\<lambda>x. x = None) xs \<Longrightarrow> prefix_filled xs"
  by (induction xs) auto


lemma all_Some_present_length:
  "list_all (\<lambda>x. x \<noteq> None) xs \<Longrightarrow> length (present xs) = length xs"
  by (induction xs rule: present.induct) auto

lemma all_Some_present_nth:
  "list_all (\<lambda>x. x \<noteq> None) xs \<Longrightarrow> i < length xs \<Longrightarrow> xs ! i = Some (present xs ! i)"
proof (induction xs arbitrary: i rule: present.induct)
  case (3 x rest)
  then show ?case by (cases i) auto
qed auto


lemma find_from_Some:
  "find_from cfg i arr s = Some j \<Longrightarrow>
   i \<le> j \<and> j - i < length arr \<and>
   (\<exists>a. arr ! (j - i) = Some a \<and>
        (if pool cfg = NO_POOL then GetBlockSize a = s else s \<le> GetBlockSize a))"
proof (induction cfg i arr s rule: find_from.induct)
  case (3 cfg i a rest s)
  show ?case
  proof (cases "if pool cfg = NO_POOL then GetBlockSize a = s else GetBlockSize a \<ge> s")
    case True
    with "3.prems" have "j = i" by (simp split: if_splits)
    with True show ?thesis by simp
  next
    case False
    with "3.prems" have "find_from cfg (Suc i) rest s = Some j" by (simp split: if_splits)
    with "3.IH" False have "Suc i \<le> j \<and> j - Suc i < length rest \<and>
      (\<exists>a. rest ! (j - Suc i) = Some a \<and>
        (if pool cfg = NO_POOL then GetBlockSize a = s else s \<le> GetBlockSize a))" by blast
    then show ?thesis by (auto simp: Suc_diff_le nth_Cons')
  qed
qed auto

lemma find_allocator_Some:
  "find_allocator cfg st s = Some i \<Longrightarrow>
   \<exists>a. slot_at (allocators st) i = Some a \<and>
       (if pool cfg = NO_POOL then GetBlockSize a = s else s \<le> GetBlockSize a)"
  using find_from_Some[of cfg 0 "allocators st" s i]
  by (auto simp: find_allocator_def slot_at_def)

lemma find_from_None_nopool:
  "pool cfg = NO_POOL \<Longrightarrow> prefix_filled (map (map_option GetBlockSize) arr) \<Longrightarrow>
   find_from cfg i arr s = None \<Longrightarrow> s \<notin> set (present (map (map_option GetBlockSize) arr))"
proof (induction cfg i arr s rule: find_from.induct)
  case (2 cfg i rest s)
  then show ?case by (simp add: all_None_present)
next
  case (3 cfg i a rest s)
  then show ?case by (auto split: if_splits)
qed auto

lemma insert_from_shape:
  "insert_from i arr a = Some (arr', j) \<Longrightarrow>
   prefix_filled (map (map_option GetBlockSize) arr) \<Longrightarrow>
   length arr' = length arr \<and>
   prefix_filled (map (map_option GetBlockSize) arr') \<and>
   present (map (map_option GetBlockSize) arr') =
     present (map (map_option GetBlockSize) arr) @ [GetBlockSize a]"
proof (induction i arr a arbitrary: arr' j rule: insert_from.induct)
  case (2 i rest a)
  then show ?case by (auto simp: all_None_present all_None_prefix_filled)
next
  case (3 i b rest a)
  then show ?case by (auto split: option.splits)
qed auto

lemma insert_from_slots:
  "insert_from i arr a = Some (arr', j) \<Longrightarrow>
   i \<le> j \<and> j - i < length arr \<and> arr ! (j - i) = None \<and> arr' = arr[j - i := Some a]"
proof (induction i arr a arbitrary: arr' j rule: insert_from.induct)
  case (3 i b rest a)
  from "3.prems" obtain rest' where r: "insert_from (Suc i) rest a = Some (rest', j)"
    and a: "arr' = Some b # rest'"
    by (auto split: option.splits)
  from "3.IH"[OF r] have "Suc i \<le> j \<and> j - Suc i < length rest \<and> rest ! (j - Suc i) = None \<and>
     rest' = rest[j - Suc i := Some a]" .
  then have ih: "Suc i \<le> j" "j - Suc i < length rest" "rest ! (j - Suc i) = None"
    "rest' = rest[j - Suc i := Some a]" by blast+
  from ih(1) have "j - i = Suc (j - Suc i)" by arith
  with ih a show ?case by simp
qed auto


lemma insert_from_None: "insert_from i arr a = None \<Longrightarrow> list_all (\<lambda>x. x \<noteq> None) arr"
  by (induction i arr a rule: insert_from.induct) (auto split: option.splits)

subsection \<open>Banks\<close>

lemma Allocate_fail: "Allocate i a h = (None, a', h') \<Longrightarrow> a' = a \<and> h' = h"
  by (auto simp: Allocate_def split: list.splits if_splits)

lemma Allocate_size: "Allocate i a h = (r, a', h') \<Longrightarrow> GetBlockSize a' = GetBlockSize a"
  by (auto simp: Allocate_def GetBlockSize_def split: list.splits if_splits)

lemma Allocate_capacity: "Allocate i a h = (r, a', h') \<Longrightarrow> GetTotalBlocks a' = GetTotalBlocks a"
  by (auto simp: Allocate_def GetTotalBlocks_def split: list.splits if_splits)

lemma Allocate_in_use:
  "Allocate i a h = (Some b, a', h') \<Longrightarrow> GetNumAllocations a' = GetNumAllocations a + 1"
  by (auto simp: Allocate_def GetNumAllocations_def split: list.splits if_splits)

subsection \<open>States with the same registry shape\<close>

lemma length_registry_sizes [simp]: "length (registry_sizes st) = length (allocators st)"
  by (simp add: registry_sizes_def)

lemma well_formed_shape:
  "registry_sizes st' = registry_sizes st \<Longrightarrow> well_formed cfg st \<Longrightarrow> well_formed cfg st'"
proof -
  assume e: "registry_sizes st' = registry_sizes st" and wf: "well_formed cfg st"
  from e have "length (allocators st') = length (allocators st)"
    by (metis length_registry_sizes)
  with e wf show ?thesis by (simp add: well_formed_def bank_sizes_def split: if_splits)
qed

lemma registry_sizes_update:
  assumes "slot_at arr i = Some a" and "GetBlockSize a' = GetBlockSize a"
  shows "map (map_option GetBlockSize) (arr[i := Some a']) = map (map_option GetBlockSize) arr"
proof -
  from assms(1) have i: "i < length arr" "arr ! i = Some a"
    by (auto simp: slot_at_def split: if_splits)
  have "map (map_option GetBlockSize) (arr[i := Some a']) =
        (map (map_option GetBlockSize) arr)[i := Some (GetBlockSize a')]"
    by (simp add: map_update)
  also have "\<dots> = (map (map_option GetBlockSize) arr)[i := map (map_option GetBlockSize) arr ! i]"
    using i assms(2) by simp
  also have "\<dots> = map (map_option GetBlockSize) arr" by (rule list_update_id)
  finally show ?thesis .
qed

lemma slot_at_update:
  "slot_at (arr[i := x]) k = (if k = i \<and> i < length arr then x else slot_at arr k)"
  by (auto simp: slot_at_def)

subsection \<open>The outcomes of \<^verbatim>\<open>memory_get_allocator\<close>\<close>

lemma mga_pool:
  "pool cfg \<noteq> NO_POOL \<Longrightarrow>
   memory_get_allocator cfg st sz = (st, find_allocator cfg st (bucket cfg sz))"
  by (simp add: memory_get_allocator_def Let_def split: option.splits)

lemma mga_cases:
  obtains
    (found) i a where "memory_get_allocator cfg st sz = (st, Some i)"
      "find_allocator cfg st (bucket cfg sz) = Some i"
      "slot_at (allocators st) i = Some a"
      "if pool cfg = NO_POOL then GetBlockSize a = bucket cfg sz
       else bucket cfg sz \<le> GetBlockSize a"
  | (none) "pool cfg \<noteq> NO_POOL" "find_allocator cfg st (bucket cfg sz) = None"
      "memory_get_allocator cfg st sz = (st, None)"
  | (created) arr' j where "pool cfg = NO_POOL"
      "find_allocator cfg st (bucket cfg sz) = None"
      "insert_from 0 (allocators st) (new_Allocator cfg (bucket cfg sz)) = Some (arr', j)"
      "memory_get_allocator cfg st sz = (st\<lparr>allocators := arr'\<rparr>, Some j)"
  | (full) "pool cfg = NO_POOL"
      "find_allocator cfg st (bucket cfg sz) = None"
      "insert_from 0 (allocators st) (new_Allocator cfg (bucket cfg sz)) = None"
      "memory_get_allocator cfg st sz =
         (st\<lparr>orphans := new_Allocator cfg (bucket cfg sz) # orphans st\<rparr>, None)"
proof (cases "find_allocator cfg st (bucket cfg sz)")
  case (Some i)
  then obtain a where "slot_at (allocators st) i = Some a"
    "if pool cfg = NO_POOL then GetBlockSize a = bucket cfg sz
     else bucket cfg sz \<le> GetBlockSize a"
    using find_allocator_Some by blast
  moreover have "memory_get_allocator cfg st sz = (st, Some i)"
    using Some by (simp add: memory_get_allocator_def)
  ultimately show thesis using Some by (rule found[rotated 2])
next
  case None
  show thesis
  proof (cases "pool cfg = NO_POOL")
    case False
    with None show thesis by (intro none) (simp_all add: memory_get_allocator_def)
  next
    case True
    show thesis
    proof (cases "insert_from 0 (allocators st) (new_Allocator cfg (bucket cfg sz))")
      case n: None
      with None True show thesis
        by (intro full) (simp_all add: memory_get_allocator_def insert_allocator_def Let_def)
    next
      case (Some p)
      obtain arr' j where p: "p = (arr', j)" by (cases p)
      with Some None True show thesis
        by (intro created[of arr' j])
           (simp_all add: memory_get_allocator_def insert_allocator_def Let_def)
    qed
  qed
qed

lemma mga_Some_slot:
  assumes "memory_get_allocator cfg st sz = (st1, Some i)"
  shows "\<exists>a. slot_at (allocators st1) i = Some a \<and>
             (if pool cfg = NO_POOL then GetBlockSize a = bucket cfg sz
              else bucket cfg sz \<le> GetBlockSize a)"
proof (cases rule: mga_cases[of cfg st sz])
  case (found i' a)
  with assms show ?thesis by auto
next
  case none
  with assms show ?thesis by simp
next
  case (created arr' j)
  from insert_from_slots[OF created(3)]
  have "j < length (allocators st)" "arr' = (allocators st)[j := Some (new_Allocator cfg (bucket cfg sz))]"
    by simp_all
  then have "slot_at arr' j = Some (new_Allocator cfg (bucket cfg sz))"
    by (simp add: slot_at_def)
  moreover have "GetBlockSize (new_Allocator cfg (bucket cfg sz)) = bucket cfg sz"
    by (simp add: new_Allocator_def DynamicAllocatorPool_def GetBlockSize_def)
  ultimately show ?thesis using assms created by auto
next
  case full
  with assms show ?thesis by simp
qed

text \<open>What \<^verbatim>\<open>memory_get_allocator\<close> leaves alone.\<close>

lemma mga_frame:
  assumes "memory_get_allocator cfg st sz = (st1, r)"
  shows "tag st1 = tag st \<and> bytes st1 = bytes st \<and> raw_heap st1 = raw_heap st \<and>
         m_srefCount st1 = m_srefCount st \<and>
         length (allocators st1) = length (allocators st) \<and>
         (\<forall>k b. slot_at (allocators st) k = Some b \<longrightarrow> slot_at (allocators st1) k = Some b)"
proof (cases rule: mga_cases[of cfg st sz])
  case (created arr' j)
  from insert_from_slots[OF created(3)]
  have j: "j < length (allocators st)" "allocators st ! j = None"
    "arr' = (allocators st)[j := Some (new_Allocator cfg (bucket cfg sz))]"
    by simp_all
  have "slot_at arr' k = Some b" if "slot_at (allocators st) k = Some b" for k b
  proof -
    from that have k: "k < length (allocators st)" "allocators st ! k = Some b"
      by (auto simp: slot_at_def split: if_splits)
    with j(2) have "k \<noteq> j" by auto
    with k j(3) show ?thesis by (simp add: slot_at_def)
  qed
  with assms created j show ?thesis by auto
qed (use assms in auto)

lemma mga_wf:
  assumes wf: "well_formed cfg st" and g: "memory_get_allocator cfg st sz = (st1, r)"
  shows "well_formed cfg st1"
proof (cases rule: mga_cases[of cfg st sz])
  case (created arr' j)
  from wf have pf: "prefix_filled (map (map_option GetBlockSize) (allocators st))"
    by (simp add: well_formed_def registry_sizes_def)
  from insert_from_shape[OF created(3) pf]
  have s: "length arr' = length (allocators st)"
    "prefix_filled (map (map_option GetBlockSize) arr')"
    "present (map (map_option GetBlockSize) arr') =
       present (map (map_option GetBlockSize) (allocators st)) @
       [GetBlockSize (new_Allocator cfg (bucket cfg sz))]"
    by simp_all
  have n: "GetBlockSize (new_Allocator cfg (bucket cfg sz)) = bucket cfg sz"
    by (simp add: new_Allocator_def DynamicAllocatorPool_def GetBlockSize_def)
  have fresh: "bucket cfg sz \<notin> set (present (map (map_option GetBlockSize) (allocators st)))"
    using created(1) pf created(2)[unfolded find_allocator_def]
    by (rule find_from_None_nopool)
  have st1: "st1 = st\<lparr>allocators := arr'\<rparr>" using g created by simp
  show ?thesis
    using wf s n fresh created(1)
    by (simp add: st1 well_formed_def registry_sizes_def bank_sizes_def)
next
  case (found i a)
  with g wf show ?thesis by simp
next
  case none
  with g wf show ?thesis by simp
next
  case full
  with g have "registry_sizes st1 = registry_sizes st" by (auto simp: registry_sizes_def)
  then show ?thesis using wf by (rule well_formed_shape)
qed

subsection \<open>The outcomes of one call of \<^verbatim>\<open>__memory_alloc\<close>\<close>

lemma memory_alloc_Suc_cases:
  assumes "memory_alloc (Suc f) cfg st sz = R"
  obtains
    (no_bank) st1 where "memory_get_allocator cfg st sz = (st1, None)"
      "R = Some (Inr (st1, None))"
  | (ok) st1 i a b a' h' where "memory_get_allocator cfg st sz = (st1, Some i)"
      "slot_at (allocators st1) i = Some a"
      "Allocate i a (raw_heap st1) = (Some b, a', h')"
      "R = Some (Inr (commit st1 i a' h' b, Some b))"
  | (crash) st1 i a where "memory_get_allocator cfg st sz = (st1, Some i)"
      "slot_at (allocators st1) i = Some a"
      "Allocate i a (raw_heap st1) = (None, a, raw_heap st1)"
      "slot_at (allocators st1) (MAX_ALLOCATORS cfg - 1) = None"
      "R = Some (Inl NullDeref)"
  | (spill) st1 i a l where "memory_get_allocator cfg st sz = (st1, Some i)"
      "slot_at (allocators st1) i = Some a"
      "Allocate i a (raw_heap st1) = (None, a, raw_heap st1)"
      "slot_at (allocators st1) (MAX_ALLOCATORS cfg - 1) = Some l"
      "GetBlockSize a < GetBlockSize l"
      "R = memory_alloc f cfg st1 (u32 (GetBlockSize a + 1))"
  | (top) st1 i a l where "memory_get_allocator cfg st sz = (st1, Some i)"
      "slot_at (allocators st1) i = Some a"
      "Allocate i a (raw_heap st1) = (None, a, raw_heap st1)"
      "slot_at (allocators st1) (MAX_ALLOCATORS cfg - 1) = Some l"
      "\<not> GetBlockSize a < GetBlockSize l"
      "R = Some (Inr (st1, None))"
proof -
  obtain st1 r where g: "memory_get_allocator cfg st sz = (st1, r)"
    by (cases "memory_get_allocator cfg st sz")
  show thesis
  proof (cases r)
    case None
    with g assms show thesis by (intro no_bank[of st1]) simp_all
  next
    case (Some i)
    with g obtain a where a: "slot_at (allocators st1) i = Some a"
      using mga_Some_slot by blast
    obtain p a' h' where al: "Allocate i a (raw_heap st1) = (p, a', h')"
      by (cases "Allocate i a (raw_heap st1)")
    note ri = \<open>r = Some i\<close>
    show thesis
    proof (cases p)
      case (Some b)
      have "R = Some (Inr (commit st1 i a' h' b, Some b))"
        using assms g ri a al Some
        by (auto simp: commit_def set_block_allocator_def Let_def)
      with g ri a al Some show thesis
        by (intro ok[of st1 i a b a' h']) simp_all
    next
      case None
      with al have al': "Allocate i a (raw_heap st1) = (None, a, raw_heap st1)"
        using Allocate_fail by blast
      show thesis
      proof (cases "slot_at (allocators st1) (MAX_ALLOCATORS cfg - 1)")
        case n: None
        have "R = Some (Inl NullDeref)"
          using assms g ri a al' n by (simp add: Let_def)
        with g ri a al' n show thesis
          by (intro crash[of st1 i a]) simp_all
      next
        case (Some l)
        show thesis
        proof (cases "GetBlockSize a < GetBlockSize l")
          case True
          have "R = memory_alloc f cfg st1 (u32 (GetBlockSize a + 1))"
            using assms g ri a al' Some True by (simp add: Let_def)
          with Some g ri a al' True show thesis
            by (intro spill[of st1 i a l]) simp_all
        next
          case False
          have "R = Some (Inr (st1, None))"
            using assms g ri a al' Some False by (simp add: Let_def)
          with Some g ri a al' False show thesis
            by (intro top[of st1 i a l]) simp_all
        qed
      qed
    qed
  qed
qed

lemma commit_fields:
  "allocators (commit st1 i a' h' b) = (allocators st1)[i := Some a']"
  "raw_heap (commit st1 i a' h' b) = h'"
  "tag (commit st1 i a' h' b) = (tag st1)(b := Some i)"
  "bytes (commit st1 i a' h' b) = bytes st1"
  "orphans (commit st1 i a' h' b) = orphans st1"
  "m_srefCount (commit st1 i a' h' b) = m_srefCount st1"
  by (simp_all add: commit_def set_block_allocator_def)

lemma commit_shape:
  assumes "slot_at (allocators st1) i = Some a" and "Allocate i a h = (r, a', h')"
  shows "registry_sizes (commit st1 i a' h' b) = registry_sizes st1"
  using registry_sizes_update[OF assms(1) Allocate_size[OF assms(2)]]
  by (simp add: registry_sizes_def commit_fields)

subsection \<open>Every Router call keeps the registry well formed\<close>

lemma memory_alloc_wf:
  "well_formed cfg st \<Longrightarrow> memory_alloc f cfg st sz = Some (Inr (st', p)) \<Longrightarrow> well_formed cfg st'"
proof (induction f arbitrary: st sz)
  case 0
  then show ?case by simp
next
  case (Suc f)
  from Suc.prems(2) show ?case
  proof (cases rule: memory_alloc_Suc_cases)
    case (no_bank st1)
    from Suc.prems(1) no_bank(1) have "well_formed cfg st1" by (rule mga_wf)
    with no_bank(2) show ?thesis by simp
  next
    case (ok st1 i a b a' h')
    from Suc.prems(1) ok(1) have "well_formed cfg st1" by (rule mga_wf)
    with commit_shape[OF ok(2,3)] have "well_formed cfg (commit st1 i a' h' b)"
      by (rule well_formed_shape)
    with ok(4) show ?thesis by simp
  next
    case (crash st1 i a)
    then show ?thesis by simp
  next
    case (spill st1 i a l)
    from Suc.prems(1) spill(1) have "well_formed cfg st1" by (rule mga_wf)
    then show ?thesis using spill(6)[symmetric] by (rule Suc.IH)
  next
    case (top st1 i a l)
    from Suc.prems(1) top(1) have "well_formed cfg st1" by (rule mga_wf)
    with top(6) show ?thesis by simp
  qed
qed

lemma memory_free_shape:
  assumes f: "memory_free st p = Inr st'"
  shows "registry_sizes st' = registry_sizes st"
proof (cases p)
  case None
  with f show ?thesis by (simp add: memory_free_def)
next
  case (Some b)
  with f obtain i a where i: "get_block_allocator st b = Some i"
    "slot_at (allocators st) i = Some a"
    "st' = st\<lparr>allocators := (allocators st)[i := Some (Deallocate a (get_block_ptr b))],
              tag := (tag st)(b := None)\<rparr>"
    by (auto simp: memory_free_def split: option.splits)
  have "GetBlockSize (Deallocate a (get_block_ptr b)) = GetBlockSize a"
    by (simp add: Deallocate_def GetBlockSize_def)
  from registry_sizes_update[OF i(2) this] i(3) show ?thesis
    by (simp add: registry_sizes_def)
qed

lemma memory_free_wf:
  "well_formed cfg st \<Longrightarrow> memory_free st p = Inr st' \<Longrightarrow> well_formed cfg st'"
  using memory_free_shape well_formed_shape by blast

lemma memcpy_shape: "registry_sizes (memcpy st d s n) = registry_sizes st"
  by (simp add: memcpy_def registry_sizes_def)

text \<open>The steps of a \<^verbatim>\<open>__memory_realloc\<close> that moves the block.\<close>

lemma memory_realloc_move:
  assumes "memory_realloc f cfg st (Some old) sz = Some (Inr (st', q))" and "sz \<noteq> 0"
  obtains
    (failed) "memory_alloc f cfg st sz = Some (Inr (st', None))" "q = None"
  | (moved) st1 newMem i oldAllocator where
      "memory_alloc f cfg st sz = Some (Inr (st1, Some newMem))"
      "get_block_allocator st1 old = Some i"
      "slot_at (allocators st1) i = Some oldAllocator"
      "memory_free (memcpy st1 newMem old
          (if realloc_oldSize cfg oldAllocator < sz then realloc_oldSize cfg oldAllocator else sz))
          (Some old) = Inr st'"
      "q = Some newMem"
proof -
  from assms obtain st1 n where a: "memory_alloc f cfg st sz = Some (Inr (st1, n))"
    by (auto simp: memory_realloc_def split: option.splits sum.splits)
  show thesis
  proof (cases n)
    case None
    with assms a have "st' = st1" "q = None" by (simp_all add: memory_realloc_def)
    with a None show thesis by (intro failed) simp_all
  next
    case (Some newMem)
    with assms a obtain i where i: "get_block_allocator st1 old = Some i"
      by (auto simp: memory_realloc_def split: option.splits)
    with assms a Some obtain oa where oa: "slot_at (allocators st1) i = Some oa"
      by (auto simp: memory_realloc_def split: option.splits)
    from assms a Some i oa have
      "memory_free (memcpy st1 newMem old
          (if realloc_oldSize cfg oa < sz then realloc_oldSize cfg oa else sz))
          (Some old) = Inr st'" "q = Some newMem"
      by (auto simp: memory_realloc_def Let_def split: sum.splits)
    with a Some i oa show thesis by (intro moved[of st1 newMem i oa]) simp_all
  qed
qed

lemma memory_realloc_wf:
  assumes wf: "well_formed cfg st" and r: "memory_realloc f cfg st p sz = Some (Inr (st', q))"
  shows "well_formed cfg st'"
proof (cases p)
  case None
  with r have "memory_alloc f cfg st sz = Some (Inr (st', q))" by (simp add: memory_realloc_def)
  with wf show ?thesis by (rule memory_alloc_wf)
next
  case (Some old)
  show ?thesis
  proof (cases "sz = 0")
    case True
    with r Some have "memory_free st (Some old) = Inr st'"
      by (auto simp: memory_realloc_def split: sum.splits)
    with wf show ?thesis by (rule memory_free_wf)
  next
    case False
    from r[unfolded Some] False show ?thesis
    proof (cases rule: memory_realloc_move)
      case failed
      with wf show ?thesis using memory_alloc_wf by blast
    next
      case (moved st1 newMem i oldAllocator)
      from wf moved(1) have "well_formed cfg st1" by (rule memory_alloc_wf)
      with memcpy_shape have "well_formed cfg (memcpy st1 newMem old
          (if realloc_oldSize cfg oldAllocator < sz then realloc_oldSize cfg oldAllocator else sz))"
        by (rule well_formed_shape)
      then show ?thesis using moved(4) by (rule memory_free_wf)
    qed
  qed
qed

subsection \<open>The registry after Bootstrap\<close>

lemma pool_size_cases:
  assumes "p \<le> 30"
  obtains (small) "p < 9" "pool_size p = 2 ^ p"
    | (r9) "p = 9" "pool_size p = 300"
    | (r10) "p = 10" "pool_size p = 400"
    | (r11) "p = 11" "pool_size p = 500"
    | (large) "12 \<le> p" "pool_size p = 2 ^ p"
proof -
  have "(2::nat) ^ p \<le> 2 ^ 30" using assms by (intro power_increasing) simp_all
  then have u: "u32 (2 ^ p) = 2 ^ p" by (simp add: u32_def)
  consider "p < 9" | "p = 9" | "p = 10" | "p = 11" | "12 \<le> p" by linarith
  then show thesis
  proof cases
    case 1
    with u show thesis
      by (intro small) (simp_all add: pool_size_def RestrictSize_apply_def powOffsetFromZero_def)
  next
    case 2
    then show thesis
      by (intro r9) (simp_all add: pool_size_def RestrictSize_apply_def powOffsetFromZero_def
          numRestrictions_def restrictions_def)
  next
    case 3
    then show thesis
      by (intro r10) (simp_all add: pool_size_def RestrictSize_apply_def powOffsetFromZero_def
          numRestrictions_def restrictions_def)
  next
    case 4
    then show thesis
      by (intro r11) (simp_all add: pool_size_def RestrictSize_apply_def powOffsetFromZero_def
          numRestrictions_def restrictions_def)
  next
    case 5
    with u show thesis
      by (intro large) (simp_all add: pool_size_def RestrictSize_apply_def powOffsetFromZero_def
          numRestrictions_def)
  qed
qed

lemma pow2_small: "p < 9 \<Longrightarrow> (2::nat) ^ p \<le> 256"
proof -
  assume "p < 9"
  then have "(2::nat) ^ p \<le> 2 ^ 8" by (intro power_increasing) simp_all
  then show ?thesis by simp
qed

lemma pow2_large: "12 \<le> p \<Longrightarrow> (4096::nat) \<le> 2 ^ p"
proof -
  assume "12 \<le> p"
  then have "(2::nat) ^ 12 \<le> 2 ^ p" by (intro power_increasing) simp_all
  then show ?thesis by simp
qed

lemma pool_size_bounds:
  assumes "p \<le> 30"
  shows "pool_size p \<le> 2 ^ 30"
    and "p < 9 \<Longrightarrow> pool_size p \<le> 256"
    and "9 \<le> p \<Longrightarrow> 300 \<le> pool_size p"
    and "p < 12 \<Longrightarrow> pool_size p \<le> 500"
    and "12 \<le> p \<Longrightarrow> 4096 \<le> pool_size p"
proof -
  have le: "(2::nat) ^ p \<le> 2 ^ 30" using assms by (intro power_increasing) simp_all
  from assms show "pool_size p \<le> 2 ^ 30"
    by (cases rule: pool_size_cases) (use le in simp_all)
  from assms show "p < 9 \<Longrightarrow> pool_size p \<le> 256"
    by (cases rule: pool_size_cases) (use pow2_small in simp_all)
  from assms show "9 \<le> p \<Longrightarrow> 300 \<le> pool_size p"
    by (cases rule: pool_size_cases) (use pow2_large[of p] in simp_all)
  from assms show "p < 12 \<Longrightarrow> pool_size p \<le> 500"
    by (cases rule: pool_size_cases) (use pow2_small[of p] in simp_all)
  from assms show "12 \<le> p \<Longrightarrow> 4096 \<le> pool_size p"
    by (cases rule: pool_size_cases) (use pow2_large[of p] in simp_all)
qed

lemma pool_size_strict_mono:
  assumes "p < q" and "q \<le> 30"
  shows "pool_size p < pool_size q"
proof -
  from assms have p30: "p \<le> 30" by simp
  note bp = pool_size_bounds[OF p30] and bq = pool_size_bounds[OF assms(2)]
  from p30 show ?thesis
  proof (cases rule: pool_size_cases)
    case small
    show ?thesis
    proof (cases "q < 9")
      case True
      with assms(2) have "pool_size q = 2 ^ q"
        by (cases rule: pool_size_cases) simp_all
      with small assms(1) show ?thesis by simp
    next
      case False
      with bq(3) bp(2) small(1) show ?thesis by simp
    qed
  next
    case r9
    from assms(2) show ?thesis
      by (cases rule: pool_size_cases) (use r9 assms(1) bq(5) in simp_all)
  next
    case r10
    from assms(2) show ?thesis
      by (cases rule: pool_size_cases) (use r10 assms(1) bq(5) in simp_all)
  next
    case r11
    from assms(2) show ?thesis
      by (cases rule: pool_size_cases) (use r11 assms(1) bq(5) in simp_all)
  next
    case large
    with assms(1) have "12 \<le> q" by simp
    with assms(2) have "pool_size q = 2 ^ q"
      by (cases rule: pool_size_cases) simp_all
    with large assms(1) show ?thesis by simp
  qed
qed

lemma pool_bank_nopool: "pool cfg = NO_POOL \<Longrightarrow> pool_bank cfg ps frm arr = arr"
  by (simp add: pool_bank_def Let_def)

lemma insert_apply_nopool: "pool cfg = NO_POOL \<Longrightarrow> insert_apply cfg ps frm lim arr = arr"
proof (induction cfg ps frm lim arr rule: insert_apply.induct)
  case (1 cfg powStart frm lim arr)
  then show ?case
    by (subst insert_apply.simps) (simp add: pool_bank_nopool)
qed

lemma pool_bank_nth:
  assumes "pool cfg \<noteq> NO_POOL" and "i < length arr"
  shows "length (pool_bank cfg ps frm arr) = length arr"
    and "map_option GetBlockSize (pool_bank cfg ps frm arr ! i) =
         (if i = frm then Some (pool_size (frm + ps)) else map_option GetBlockSize (arr ! i))"
  using assms
  by (cases "pool cfg";
      simp add: pool_bank_def Let_def pool_size_def GetBlockSize_def nth_list_update
        DynamicAllocatorPool_def StaticAllocatorPool_def)+

lemma insert_apply_shape:
  "pool cfg \<noteq> NO_POOL \<Longrightarrow> lim < length arr \<Longrightarrow>
   length (insert_apply cfg ps frm lim arr) = length arr \<and>
   (\<forall>i < length arr. map_option GetBlockSize (insert_apply cfg ps frm lim arr ! i) =
      (if frm \<le> i \<and> i \<le> max frm lim then Some (pool_size (i + ps))
       else map_option GetBlockSize (arr ! i)))"
proof (induction cfg ps frm lim arr rule: insert_apply.induct)
  case (1 cfg powStart frm lim arr)
  let ?arr1 = "pool_bank cfg powStart frm arr"
  let ?sz = "\<lambda>xs i. map_option GetBlockSize (xs ! i)"
  note pb = pool_bank_nth[OF "1.prems"(1), of _ arr powStart frm]
  have len1: "length ?arr1 = length arr"
  proof -
    from "1.prems"(2) have "lim < length arr" .
    then show ?thesis by (rule pb(1))
  qed
  show ?case
  proof (cases "frm < lim")
    case True
    have e: "insert_apply cfg powStart frm lim arr = insert_apply cfg powStart (frm + 1) lim ?arr1"
      using True by (subst insert_apply.simps) simp
    have lim1: "lim < length ?arr1" using "1.prems"(2) len1 by simp
    from "1.IH"[OF True "1.prems"(1) lim1] len1
    have ih1: "length (insert_apply cfg powStart (frm + 1) lim ?arr1) = length arr"
      and ih2: "\<And>i. i < length arr \<Longrightarrow> ?sz (insert_apply cfg powStart (frm + 1) lim ?arr1) i =
         (if frm + 1 \<le> i \<and> i \<le> max (frm + 1) lim
          then Some (pool_size (i + powStart)) else ?sz ?arr1 i)"
      by simp_all
    show ?thesis
    proof (intro conjI allI impI)
      show "length (insert_apply cfg powStart frm lim arr) = length arr"
        using e ih1 by simp
    next
      fix i assume i: "i < length arr"
      have "?sz (insert_apply cfg powStart frm lim arr) i =
         (if frm + 1 \<le> i \<and> i \<le> max (frm + 1) lim
          then Some (pool_size (i + powStart)) else ?sz ?arr1 i)"
        unfolding e using i by (rule ih2)
      also have "\<dots> = (if frm \<le> i \<and> i \<le> max frm lim
          then Some (pool_size (i + powStart)) else ?sz arr i)"
        using True pb(2)[OF i] by (auto simp: max_def)
      finally show "?sz (insert_apply cfg powStart frm lim arr) i =
         (if frm \<le> i \<and> i \<le> max frm lim
          then Some (pool_size (i + powStart)) else ?sz arr i)" .
    qed
  next
    case False
    have e: "insert_apply cfg powStart frm lim arr = ?arr1"
      using False by (subst insert_apply.simps) simp
    show ?thesis
    proof (intro conjI allI impI)
      show "length (insert_apply cfg powStart frm lim arr) = length arr"
        using e len1 by simp
    next
      fix i assume i: "i < length arr"
      show "?sz (insert_apply cfg powStart frm lim arr) i =
         (if frm \<le> i \<and> i \<le> max frm lim
          then Some (pool_size (i + powStart)) else ?sz arr i)"
        unfolding e using False pb(2)[OF i] by (auto simp: max_def)
    qed
  qed
qed

lemma present_map_Some: "present (map Some xs) = xs"
  by (induction xs) auto

lemma all_Some_prefix_filled: "list_all (\<lambda>x. x \<noteq> None) xs \<Longrightarrow> prefix_filled xs"
  by (induction xs rule: prefix_filled.induct) auto

lemma bootstrap_allocators:
  "allocators (bootstrap cfg heap) =
     insert_apply cfg (powStart_of cfg) 0 (MAX_ALLOCATORS cfg - 1) (replicate (MAX_ALLOCATORS cfg) None)"
  by (simp add: bootstrap_def MemoryInitDestroy_ctor_def start_state_def memory_init_def Let_def)

lemma bootstrap_pool_sizes:
  assumes p: "pool cfg \<noteq> NO_POOL"
  shows "registry_sizes (bootstrap cfg heap) =
         map (\<lambda>i. Some (pool_size (i + powStart_of cfg))) [0..<MAX_ALLOCATORS cfg]"
proof (cases "MAX_ALLOCATORS cfg = 0")
  case True
  have "pool_bank cfg (powStart_of cfg) 0 [] = []"
    by (cases "pool cfg") (simp_all add: pool_bank_def Let_def)
  then have "insert_apply cfg (powStart_of cfg) 0 0 [] = []"
    by (subst insert_apply.simps) simp
  with True show ?thesis by (simp add: registry_sizes_def bootstrap_allocators)
next
  case False
  let ?n = "MAX_ALLOCATORS cfg"
  let ?arr = "replicate ?n (None :: allocator option)"
  from False have n: "0 < ?n" by simp
  then have lim: "?n - 1 < length ?arr" by simp
  note s = insert_apply_shape[OF p lim, of "powStart_of cfg" 0]
  show ?thesis
  proof (rule nth_equalityI)
    show "length (registry_sizes (bootstrap cfg heap)) =
          length (map (\<lambda>i. Some (pool_size (i + powStart_of cfg))) [0..<?n])"
      using s by (simp add: bootstrap_allocators)
  next
    fix i assume "i < length (registry_sizes (bootstrap cfg heap))"
    then have i: "i < ?n" using s by (simp add: bootstrap_allocators)
    with s n have "map_option GetBlockSize
        (insert_apply cfg (powStart_of cfg) 0 (?n - 1) ?arr ! i) =
        Some (pool_size (i + powStart_of cfg))"
      by auto
    moreover have "i < length (insert_apply cfg (powStart_of cfg) 0 (?n - 1) ?arr)"
      using s i by simp
    ultimately show "registry_sizes (bootstrap cfg heap) ! i =
          map (\<lambda>i. Some (pool_size (i + powStart_of cfg))) [0..<?n] ! i"
      using i by (simp add: registry_sizes_def bootstrap_allocators)
  qed
qed

lemma bootstrap_wf:
  assumes v: "bootable cfg"
  shows "well_formed cfg (bootstrap cfg heap)"
proof (cases "pool cfg = NO_POOL")
  case True
  then have a: "allocators (bootstrap cfg heap) = replicate (MAX_ALLOCATORS cfg) None"
    by (simp add: bootstrap_allocators insert_apply_nopool)
  have n: "list_all (\<lambda>x. x = None) (registry_sizes (bootstrap cfg heap))"
    by (simp add: registry_sizes_def a list_all_length)
  from n have "prefix_filled (registry_sizes (bootstrap cfg heap))"
    by (rule all_None_prefix_filled)
  moreover from n have "bank_sizes (bootstrap cfg heap) = []"
    unfolding bank_sizes_def by (rule all_None_present)
  ultimately show ?thesis using True a by (simp add: well_formed_def)
next
  case False
  let ?n = "MAX_ALLOCATORS cfg"
  let ?f = "\<lambda>i. pool_size (i + powStart_of cfg)"
  from v False have b: "powStart_of cfg + ?n - 1 \<le> 30" by (simp add: bootable_def)
  have r: "registry_sizes (bootstrap cfg heap) = map Some (map ?f [0..<?n])"
    using bootstrap_pool_sizes[OF False] by simp
  have bs: "bank_sizes (bootstrap cfg heap) = map ?f [0..<?n]"
    unfolding bank_sizes_def r by (rule present_map_Some)
  have len: "length (allocators (bootstrap cfg heap)) = ?n"
    using arg_cong[OF r, of length] by simp
  have all: "list_all (\<lambda>x. x \<noteq> None) (registry_sizes (bootstrap cfg heap))"
    unfolding r by (simp add: list_all_length)
  have "sorted_wrt (\<lambda>i j. ?f i < ?f j) [0..<?n]"
  proof (rule sorted_wrt_mono_rel[of _ "(<)"])
    fix i j assume "i \<in> set [0..<?n]" "j \<in> set [0..<?n]" "i < j"
    with b show "?f i < ?f j" by (intro pool_size_strict_mono) simp_all
  qed simp
  then have so: "sorted_wrt (<) (bank_sizes (bootstrap cfg heap))"
    unfolding bs by (simp add: sorted_wrt_map)
  from len all so False all_Some_prefix_filled[OF all] show ?thesis
    by (simp add: well_formed_def)
qed

lemma client_write_shape: "registry_sizes (client_write st p off v) = registry_sizes st"
  by (simp add: client_write_def registry_sizes_def)

lemma reachable_wf:
  assumes "reachable cfg st" and v: "bootable cfg"
  shows "well_formed cfg st"
  using assms(1)
proof (induction rule: reachable.induct)
  case (reach_boot heap)
  from v show ?case by (rule bootstrap_wf)
next
  case (reach_alloc st fuel sz st' p)
  then show ?case using memory_alloc_wf by blast
next
  case (reach_free st p st')
  then show ?case using memory_free_wf by blast
next
  case (reach_realloc st fuel p sz st' q)
  then show ?case using memory_realloc_wf by blast
next
  case (reach_write st p off v)
  then show ?case using well_formed_shape[OF client_write_shape] by blast
qed

subsection \<open>Evaluating the example configurations\<close>

lemmas boot_defs = bootstrap_def MemoryInitDestroy_ctor_def start_state_def memory_init_def
  insert_apply.simps pool_bank_def powStart_of_def required_extra_buffer_def u16_def u32_def
  ilog2.simps RestrictSize_apply_def powOffsetFromZero_def numRestrictions_def restrictions_def
  StaticAllocatorPool_def DynamicAllocatorPool_def Let_def

lemmas alloc_defs = alloc_state_def alloc_ptr_def memory_get_allocator_def bucket_def
  find_allocator_def insert_allocator_def new_Allocator_def nextHigher_def nextHigher_loop.simps
  slot_at_def Allocate_def GetBlockSize_def set_block_allocator_def
  required_extra_buffer_def u16_def u32_def DynamicAllocatorPool_def Let_def

lemma replicate_2: "replicate 2 x = [x, x]"
  by (simp add: numeral_2_eq_2)

lemma replicate_8: "replicate 8 x = [x, x, x, x, x, x, x, x]"
  by (simp add: numeral_eq_Suc)

lemma upt_0_4: "[0..<4] = [0, 1, 2, Suc 2]"
  by (simp add: numeral_eq_Suc upt_rec)


lemma valid_cfgN: "valid_config cfgN"
  by (simp add: valid_config_def cfgN_def)

lemma bootN:
  "bootstrap cfgN h = \<lparr>allocators = [None, None], m_srefCount = 1, orphans = [],
      tag = (\<lambda>b. None), bytes = (\<lambda>b i. 0), raw_heap = h, inits = 1, destroys = 0\<rparr>"
  by (simp add: cfgN_def boot_defs replicate_2)

lemma bootS:
  "bootstrap cfgS h = \<lparr>allocators = [Some (bankS 0 8), Some (bankS 1 16), Some (bankS 2 32),
        Some (bankS 3 64), Some (bankS 4 128), Some (bankS 5 256), Some (bankS 6 300),
        Some (bankS 7 400)],
      m_srefCount = 1, orphans = [],
      tag = (\<lambda>b. None), bytes = (\<lambda>b i. 0), raw_heap = h, inits = 1, destroys = 0\<rparr>"
  by (simp add: cfgS_def boot_defs replicate_8 upt_0_4 bankS_def)

lemma returns_alloc:
  "returns (memory_alloc f cfg st sz) \<Longrightarrow>
   memory_alloc f cfg st sz = Some (Inr (alloc_state f cfg st sz, alloc_ptr f cfg st sz))"
  by (auto simp: returns_def alloc_state_def alloc_ptr_def split: option.splits sum.splits)

lemma returns_null_iff: "returns_null r \<longleftrightarrow> (\<exists>st'. r = Some (Inr (st', None)))"
proof (cases r)
  case None
  then show ?thesis by (simp add: returns_null_def)
next
  case (Some x)
  show ?thesis
  proof (cases x)
    case (Inl e)
    with Some show ?thesis by (simp add: returns_null_def)
  next
    case (Inr sp)
    obtain s p where "sp = (s, p)" by (cases sp)
    with Some Inr show ?thesis by (cases p) (simp_all add: returns_null_def)
  qed
qed

lemma reachable_alloc_state: "reachable cfg st \<Longrightarrow> reachable cfg (alloc_state f cfg st sz)"
proof -
  assume r: "reachable cfg st"
  show ?thesis
  proof (cases "memory_alloc f cfg st sz")
    case None
    with r show ?thesis by (simp add: alloc_state_def)
  next
    case (Some res)
    show ?thesis
    proof (cases res)
      case (Inl e)
      with Some r show ?thesis by (simp add: alloc_state_def)
    next
      case (Inr sp)
      obtain st' p where "sp = (st', p)" by (cases sp)
      with Some Inr have m: "memory_alloc f cfg st sz = Some (Inr (st', p))" by simp
      then have "alloc_state f cfg st sz = st'" by (simp add: alloc_state_def)
      with reach_alloc[OF r m] show ?thesis by simp
    qed
  qed
qed

lemma reachable_allocs: "reachable cfg st \<Longrightarrow> reachable cfg (allocs f cfg st szs)"
  by (induction szs arbitrary: st) (simp_all add: reachable_alloc_state allocs.simps)

lemma sizesN_100_1:
  "registry_sizes (allocs 3 cfgN (bootstrap cfgN 1000) [100, 1]) = [Some 128, Some 8]"
  unfolding bootN
  apply (simp add: numeral_3_eq_3 alloc_state_def allocs.simps)
  apply (simp add: cfgN_def alloc_defs registry_sizes_def)
  done

lemma evalN_100: "returns (memory_alloc 3 cfgN (bootstrap cfgN 1000) 100)"
  unfolding bootN
  apply (simp add: numeral_3_eq_3 returns_def)
  apply (simp add: cfgN_def alloc_defs)
  done

subsection \<open>Router calls append the banks they create\<close>

lemma bank_sizes_shape: "registry_sizes st' = registry_sizes st \<Longrightarrow> bank_sizes st' = bank_sizes st"
  by (simp add: bank_sizes_def)

lemma memory_alloc_pool_shape:
  "pool cfg \<noteq> NO_POOL \<Longrightarrow> memory_alloc f cfg st sz = Some (Inr (st', p)) \<Longrightarrow>
   registry_sizes st' = registry_sizes st"
proof (induction f arbitrary: sz)
  case 0
  then show ?case by simp
next
  case (Suc f)
  from Suc.prems(2) show ?case
  proof (cases rule: memory_alloc_Suc_cases)
    case (no_bank st1)
    with Suc.prems(1) show ?thesis by (simp add: mga_pool)
  next
    case (ok st1 i a b a' h')
    from ok(1) Suc.prems(1) have "st1 = st" by (simp add: mga_pool)
    with commit_shape[OF ok(2,3)] ok(4) show ?thesis by simp
  next
    case (crash st1 i a)
    then show ?thesis by simp
  next
    case (spill st1 i a l)
    from spill(1) Suc.prems(1) have "st1 = st" by (simp add: mga_pool)
    with Suc.IH[OF Suc.prems(1)] spill(6) show ?thesis by simp
  next
    case (top st1 i a l)
    with Suc.prems(1) show ?thesis by (simp add: mga_pool)
  qed
qed

lemma mga_grows:
  assumes wf: "well_formed cfg st" and g: "memory_get_allocator cfg st sz = (st1, r)"
  shows "bank_sizes st1 = bank_sizes st \<or>
         (pool cfg = NO_POOL \<and> bank_sizes st1 = bank_sizes st @ [bucket cfg sz])"
proof (cases rule: mga_cases[of cfg st sz])
  case (created arr' j)
  from wf have pf: "prefix_filled (map (map_option GetBlockSize) (allocators st))"
    by (simp add: well_formed_def registry_sizes_def)
  from insert_from_shape[OF created(3) pf]
  have "present (map (map_option GetBlockSize) arr') =
       present (map (map_option GetBlockSize) (allocators st)) @
       [GetBlockSize (new_Allocator cfg (bucket cfg sz))]"
    by simp
  moreover have "GetBlockSize (new_Allocator cfg (bucket cfg sz)) = bucket cfg sz"
    by (simp add: new_Allocator_def DynamicAllocatorPool_def GetBlockSize_def)
  moreover have "st1 = st\<lparr>allocators := arr'\<rparr>" using g created by simp
  ultimately show ?thesis using created(1)
    by (simp add: bank_sizes_def registry_sizes_def)
next
  case (found i a)
  with g show ?thesis by simp
next
  case none
  with g show ?thesis by simp
next
  case full
  with g show ?thesis by (auto simp: bank_sizes_def registry_sizes_def)
qed

lemma memory_alloc_grows:
  "well_formed cfg st \<Longrightarrow> memory_alloc f cfg st sz = Some (Inr (st', p)) \<Longrightarrow>
   \<exists>ys. bank_sizes st' = bank_sizes st @ ys \<and>
        (\<forall>y \<in> set ys. pool cfg = NO_POOL \<and> (\<exists>z. y = bucket cfg z))"
proof (induction f arbitrary: st sz)
  case 0
  then show ?case by simp
next
  case (Suc f)
  have step: "\<exists>ys. bank_sizes st1 = bank_sizes st @ ys \<and>
        (\<forall>y \<in> set ys. pool cfg = NO_POOL \<and> (\<exists>z. y = bucket cfg z))"
    if "memory_get_allocator cfg st sz = (st1, r)" for st1 r
    using mga_grows[OF Suc.prems(1) that] by auto
  from Suc.prems(2) show ?case
  proof (cases rule: memory_alloc_Suc_cases)
    case (no_bank st1)
    with step[OF no_bank(1)] show ?thesis by simp
  next
    case (ok st1 i a b a' h')
    from commit_shape[OF ok(2,3)] have "bank_sizes (commit st1 i a' h' b) = bank_sizes st1"
      by (rule bank_sizes_shape)
    with step[OF ok(1)] ok(4) show ?thesis by simp
  next
    case (crash st1 i a)
    then show ?thesis by simp
  next
    case (spill st1 i a l)
    from Suc.prems(1) spill(1) have "well_formed cfg st1" by (rule mga_wf)
    from Suc.IH[OF this spill(6)[symmetric]] obtain zs where
      zs: "bank_sizes st' = bank_sizes st1 @ zs"
        "\<forall>y \<in> set zs. pool cfg = NO_POOL \<and> (\<exists>z. y = bucket cfg z)" by blast
    from step[OF spill(1)] obtain ys where
      ys: "bank_sizes st1 = bank_sizes st @ ys"
        "\<forall>y \<in> set ys. pool cfg = NO_POOL \<and> (\<exists>z. y = bucket cfg z)" by blast
    from zs ys have "bank_sizes st' = bank_sizes st @ (ys @ zs) \<and>
        (\<forall>y \<in> set (ys @ zs). pool cfg = NO_POOL \<and> (\<exists>z. y = bucket cfg z))" by auto
    then show ?thesis by blast
  next
    case (top st1 i a l)
    with step[OF top(1)] show ?thesis by simp
  qed
qed

lemma memory_alloc_appends:
  assumes "pool cfg = NO_POOL \<longrightarrow> well_formed cfg st"
    and "memory_alloc f cfg st sz = Some (Inr (st', p))"
  shows "\<exists>ys. bank_sizes st' = bank_sizes st @ ys"
proof (cases "pool cfg = NO_POOL")
  case True
  with assms(1) have "well_formed cfg st" by simp
  from memory_alloc_grows[OF this assms(2)] obtain ys where
    "bank_sizes st' = bank_sizes st @ ys" by (elim exE conjE)
  then show ?thesis by (rule exI)
next
  case False
  from memory_alloc_pool_shape[OF False assms(2)] have "bank_sizes st' = bank_sizes st"
    by (rule bank_sizes_shape)
  then have "bank_sizes st' = bank_sizes st @ []" by simp
  then show ?thesis by (rule exI)
qed

lemma memory_realloc_sizes:
  assumes r: "memory_realloc f cfg st p sz = Some (Inr (st', q))"
  shows "registry_sizes st' = registry_sizes st \<or>
         (\<exists>st1 n. memory_alloc f cfg st sz = Some (Inr (st1, n)) \<and>
                   registry_sizes st' = registry_sizes st1)"
proof (cases p)
  case None
  with r have "memory_alloc f cfg st sz = Some (Inr (st', q))" by (simp add: memory_realloc_def)
  then have "\<exists>st1 n. memory_alloc f cfg st sz = Some (Inr (st1, n)) \<and>
                   registry_sizes st' = registry_sizes st1" by (intro exI[of _ st'] exI[of _ q]) simp
  then show ?thesis by (rule disjI2)
next
  case (Some old)
  show ?thesis
  proof (cases "sz = 0")
    case True
    with r Some have "memory_free st (Some old) = Inr st'"
      by (auto simp: memory_realloc_def split: sum.splits)
    then have "registry_sizes st' = registry_sizes st" by (rule memory_free_shape)
    then show ?thesis by (rule disjI1)
  next
    case False
    from r[unfolded Some] False show ?thesis
    proof (cases rule: memory_realloc_move)
      case failed
      then have "\<exists>st1 n. memory_alloc f cfg st sz = Some (Inr (st1, n)) \<and>
                   registry_sizes st' = registry_sizes st1"
        by (intro exI[of _ st'] exI[of _ None]) simp
      then show ?thesis by (rule disjI2)
    next
      case (moved st1 newMem i oldAllocator)
      from memory_free_shape[OF moved(4)] have "registry_sizes st' = registry_sizes st1"
        by (simp add: memcpy_shape)
      with moved(1) have "\<exists>st1 n. memory_alloc f cfg st sz = Some (Inr (st1, n)) \<and>
                   registry_sizes st' = registry_sizes st1"
        by (intro exI[of _ st1] exI[of _ "Some newMem"]) simp
      then show ?thesis by (rule disjI2)
    qed
  qed
qed

lemma memory_realloc_appends:
  assumes "pool cfg = NO_POOL \<longrightarrow> well_formed cfg st"
    and "memory_realloc f cfg st p sz = Some (Inr (st', q))"
  shows "\<exists>ys. bank_sizes st' = bank_sizes st @ ys"
  using memory_realloc_sizes[OF assms(2)]
proof
  assume "registry_sizes st' = registry_sizes st"
  then have "bank_sizes st' = bank_sizes st" by (rule bank_sizes_shape)
  then have "bank_sizes st' = bank_sizes st @ []" by simp
  then show ?thesis by (rule exI)
next
  assume "\<exists>st1 n. memory_alloc f cfg st sz = Some (Inr (st1, n)) \<and>
                   registry_sizes st' = registry_sizes st1"
  then obtain st1 n where a: "memory_alloc f cfg st sz = Some (Inr (st1, n))"
    and e: "registry_sizes st' = registry_sizes st1" by (elim exE conjE)
  from e have "bank_sizes st' = bank_sizes st1" by (rule bank_sizes_shape)
  with memory_alloc_appends[OF assms(1) a] show ?thesis by simp
qed

lemma nopool_bootable: "pool cfg = NO_POOL \<Longrightarrow> bootable cfg"
  by (simp add: bootable_def)

subsection \<open>Order of the block sizes in the Registry\<close>

text \<open>
  C4 (as amended). After Bootstrap and after every returning Router operation:
  (a) in a pool configuration whose bank exponents are at most 30 (so that no
  \<^verbatim>\<open>1 << curr_pow\<close> overflows), every Registry slot holds a bank and the block sizes are
  strictly ascending in Registry order;
  (b) without a pool (on-demand banks) the banks fill a prefix of the Registry and their
  block sizes are pairwise distinct;
  (c) in every configuration a Router operation leaves the block sizes of the existing
  banks in place and appends those of the banks it creates behind them (\<^verbatim>\<open>free\<close> creates
  none), so that the banks stand in the order of their creation.
\<close>

theorem registry_order:
  assumes "reachable cfg st"
  shows "(pool cfg \<noteq> NO_POOL \<and> powStart_of cfg + MAX_ALLOCATORS cfg - 1 \<le> 30 \<longrightarrow>
            list_all (\<lambda>x. x \<noteq> None) (registry_sizes st) \<and> sorted_wrt (<) (bank_sizes st)) \<and>
         (pool cfg = NO_POOL \<longrightarrow>
            prefix_filled (registry_sizes st) \<and> distinct (bank_sizes st)) \<and>
         (\<forall>fuel sz st' p. memory_alloc fuel cfg st sz = Some (Inr (st', p)) \<longrightarrow>
            (\<exists>ys. bank_sizes st' = bank_sizes st @ ys)) \<and>
         (\<forall>p st'. memory_free st p = Inr st' \<longrightarrow> bank_sizes st' = bank_sizes st) \<and>
         (\<forall>fuel p sz st' q. memory_realloc fuel cfg st p sz = Some (Inr (st', q)) \<longrightarrow>
            (\<exists>ys. bank_sizes st' = bank_sizes st @ ys))"
proof -
  have a: "list_all (\<lambda>x. x \<noteq> None) (registry_sizes st) \<and> sorted_wrt (<) (bank_sizes st)"
    if "pool cfg \<noteq> NO_POOL" "powStart_of cfg + MAX_ALLOCATORS cfg - 1 \<le> 30"
  proof -
    from that have "bootable cfg" by (simp add: bootable_def)
    with assms have "well_formed cfg st" by (rule reachable_wf)
    with that(1) show ?thesis by (auto simp: well_formed_def split: if_splits)
  qed
  have wf: "pool cfg = NO_POOL \<longrightarrow> well_formed cfg st"
    using reachable_wf[OF assms nopool_bootable] by blast
  then have b: "pool cfg = NO_POOL \<longrightarrow>
            prefix_filled (registry_sizes st) \<and> distinct (bank_sizes st)"
    by (auto simp: well_formed_def split: if_splits)
  have c: "\<forall>fuel sz st' p. memory_alloc fuel cfg st sz = Some (Inr (st', p)) \<longrightarrow>
            (\<exists>ys. bank_sizes st' = bank_sizes st @ ys)"
    using memory_alloc_appends[OF wf] by blast
  have d: "\<forall>p st'. memory_free st p = Inr st' \<longrightarrow> bank_sizes st' = bank_sizes st"
    using bank_sizes_shape[OF memory_free_shape] by blast
  have e: "\<forall>fuel p sz st' q. memory_realloc fuel cfg st p sz = Some (Inr (st', q)) \<longrightarrow>
            (\<exists>ys. bank_sizes st' = bank_sizes st @ ys)"
    using memory_realloc_appends[OF wf] by blast
  from a have a': "pool cfg \<noteq> NO_POOL \<and> powStart_of cfg + MAX_ALLOCATORS cfg - 1 \<le> 30 \<longrightarrow>
            list_all (\<lambda>x. x \<noteq> None) (registry_sizes st) \<and> sorted_wrt (<) (bank_sizes st)"
    by blast
  from a' b c d e show ?thesis by (intro conjI)
qed

theorem registry_order_witness:
  "list_all (\<lambda>x. x \<noteq> None) (registry_sizes (allocs 3 cfgS (bootstrap cfgS 0) [12, 400])) \<and>
   sorted_wrt (<) (bank_sizes (allocs 3 cfgS (bootstrap cfgS 0) [12, 400])) \<and>
   prefix_filled (registry_sizes (allocs 3 cfgN (bootstrap cfgN 1000) [100, 1])) \<and>
   distinct (bank_sizes (allocs 3 cfgN (bootstrap cfgN 1000) [100, 1])) \<and>
   (\<exists>ys. bank_sizes (alloc_state 3 cfgN (bootstrap cfgN 1000) 100) =
         bank_sizes (bootstrap cfgN 1000) @ ys) \<and>
   bank_sizes (bootstrap cfgN 1000) = bank_sizes (bootstrap cfgN 1000) \<and>
   (\<exists>ys. bank_sizes (alloc_state 3 cfgN (bootstrap cfgN 1000) 100) =
         bank_sizes (bootstrap cfgN 1000) @ ys)"
proof -
  have s: "pool cfgS \<noteq> NO_POOL \<and> powStart_of cfgS + MAX_ALLOCATORS cfgS - 1 \<le> 30"
    by (simp add: cfgS_def powStart_of_def required_extra_buffer_def u16_def ilog2.simps)
  have n: "pool cfgN = NO_POOL" by (simp add: cfgN_def)
  note tS = registry_order[OF reachable_allocs[OF reach_boot], of cfgS 3 0 "[12, 400]"]
  note tN = registry_order[OF reachable_allocs[OF reach_boot], of cfgN 3 1000 "[100, 1]"]
  note tB = registry_order[OF reach_boot, of cfgN 1000]
  note al = returns_alloc[OF evalN_100]
  have fr: "memory_free (bootstrap cfgN 1000) None = Inr (bootstrap cfgN 1000)"
    by (simp add: memory_free_def)
  have re: "memory_realloc 3 cfgN (bootstrap cfgN 1000) None 100 =
      Some (Inr (alloc_state 3 cfgN (bootstrap cfgN 1000) 100,
                 alloc_ptr 3 cfgN (bootstrap cfgN 1000) 100))"
    using al by (simp add: memory_realloc_def)
  from tS s have "list_all (\<lambda>x. x \<noteq> None) (registry_sizes (allocs 3 cfgS (bootstrap cfgS 0) [12, 400])) \<and>
   sorted_wrt (<) (bank_sizes (allocs 3 cfgS (bootstrap cfgS 0) [12, 400]))" by blast
  moreover from tN n have "prefix_filled (registry_sizes (allocs 3 cfgN (bootstrap cfgN 1000) [100, 1])) \<and>
   distinct (bank_sizes (allocs 3 cfgN (bootstrap cfgN 1000) [100, 1]))" by blast
  moreover from tB al have "\<exists>ys. bank_sizes (alloc_state 3 cfgN (bootstrap cfgN 1000) 100) =
         bank_sizes (bootstrap cfgN 1000) @ ys" by blast
  moreover from tB fr have "bank_sizes (bootstrap cfgN 1000) = bank_sizes (bootstrap cfgN 1000)"
    by blast
  moreover from tB re have "\<exists>ys. bank_sizes (alloc_state 3 cfgN (bootstrap cfgN 1000) 100) =
         bank_sizes (bootstrap cfgN 1000) @ ys" by blast
  ultimately show ?thesis by blast
qed

text \<open>Without a pool, a large request followed by a small one leaves the banks in
  descending order.\<close>

theorem registry_order_counterexample:
  "reachable cfgN (allocs 3 cfgN (bootstrap cfgN 1000) [100, 1]) \<and>
   bank_sizes (allocs 3 cfgN (bootstrap cfgN 1000) [100, 1]) = [128, 8] \<and>
   \<not> sorted_wrt (<) (bank_sizes (allocs 3 cfgN (bootstrap cfgN 1000) [100, 1]))"
  using reachable_allocs[OF reach_boot, of cfgN 3 1000 "[100, 1]"]
  unfolding bank_sizes_def sizesN_100_1 by simp

subsection \<open>Bootstrap and teardown\<close>

lemma pool_bank_length: "length (pool_bank cfg ps frm arr) = length arr"
  by (cases "pool cfg") (simp_all add: pool_bank_def Let_def)

lemma insert_apply_length: "length (insert_apply cfg ps frm lim arr) = length arr"
proof (induction cfg ps frm lim arr rule: insert_apply.induct)
  case (1 cfg powStart frm lim arr)
  show ?case
  proof (cases "frm < lim")
    case True
    with "1.IH" show ?thesis
      by (subst insert_apply.simps) (simp add: pool_bank_length)
  next
    case False
    then show ?thesis
      by (subst insert_apply.simps) (simp add: pool_bank_length)
  qed
qed

lemma memory_init_sizes:
  assumes p: "pool cfg \<noteq> NO_POOL" and len: "length (allocators st) = MAX_ALLOCATORS cfg"
  shows "registry_sizes (memory_init cfg st) = pool_sizes cfg"
proof (cases "MAX_ALLOCATORS cfg = 0")
  case True
  with len have "allocators st = []" by simp
  moreover have "length (insert_apply cfg (powStart_of cfg) 0 0 []) = 0"
    by (simp add: insert_apply_length)
  ultimately show ?thesis using True
    by (simp add: registry_sizes_def memory_init_def pool_sizes_def)
next
  case False
  let ?n = "MAX_ALLOCATORS cfg"
  let ?arr = "allocators st"
  let ?new = "insert_apply cfg (powStart_of cfg) 0 (?n - 1) ?arr"
  from False len have lim: "?n - 1 < length ?arr" by simp
  note s = insert_apply_shape[OF p lim, of "powStart_of cfg" 0]
  have a: "allocators (memory_init cfg st) = ?new" by (simp add: memory_init_def)
  have l: "length ?new = ?n" using s len by simp
  show ?thesis
  proof (rule nth_equalityI)
    show "length (registry_sizes (memory_init cfg st)) = length (pool_sizes cfg)"
      using l by (simp add: registry_sizes_def a pool_sizes_def)
  next
    fix i assume "i < length (registry_sizes (memory_init cfg st))"
    then have i: "i < ?n" using l by (simp add: registry_sizes_def a)
    with s len have "map_option GetBlockSize (?new ! i) = Some (pool_size (i + powStart_of cfg))"
      by auto
    with i l show "registry_sizes (memory_init cfg st) ! i = pool_sizes cfg ! i"
      by (simp add: registry_sizes_def a pool_sizes_def)
  qed
qed

lemma memory_init_nopool:
  "pool cfg = NO_POOL \<Longrightarrow> allocators (memory_init cfg st) = allocators st"
  by (simp add: memory_init_def insert_apply_nopool)

lemma destroy_loop_fst:
  "fst (destroy_loop arr) = replicate (leading_banks arr) None @ drop (leading_banks arr) arr"
  by (induction arr rule: destroy_loop.induct)
     (auto simp: leading_banks_def split: prod.splits)

lemma destroy_loop_snd:
  "snd (destroy_loop arr) = sum_list (map released (present (take (leading_banks arr) arr)))"
  by (induction arr rule: destroy_loop.induct)
     (auto simp: leading_banks_def split: prod.splits)

lemma memory_destroy_fields:
  "allocators (memory_destroy st) =
     replicate (leading_banks (allocators st)) None @
     drop (leading_banks (allocators st)) (allocators st)"
  "raw_heap (memory_destroy st) =
     raw_heap st +
     sum_list (map released (present (take (leading_banks (allocators st)) (allocators st))))"
  "m_srefCount (memory_destroy st) = m_srefCount st"
  using destroy_loop_fst[of "allocators st"] destroy_loop_snd[of "allocators st"]
  by (auto simp: memory_destroy_def split: prod.splits)

lemma leading_all: "list_all (\<lambda>x. x \<noteq> None) arr \<Longrightarrow> leading_banks arr = length arr"
  by (induction arr) (simp_all add: leading_banks_def)

lemma leading_prefix:
  "prefix_filled arr \<Longrightarrow> list_all (\<lambda>x. x = None) (drop (leading_banks arr) arr)"
  by (induction arr rule: prefix_filled.induct) (simp_all add: leading_banks_def)

lemma all_None_replicate: "list_all (\<lambda>x. x = None) xs \<Longrightarrow> xs = replicate (length xs) None"
  by (induction xs) simp_all

lemma teardown_all:
  assumes "prefix_filled arr"
  shows "replicate (leading_banks arr) None @ drop (leading_banks arr) arr =
         replicate (length arr) None"
proof -
  have le: "leading_banks arr \<le> length arr"
    unfolding leading_banks_def by (rule length_takeWhile_le)
  from all_None_replicate[OF leading_prefix[OF assms]]
  have "drop (leading_banks arr) arr = replicate (length arr - leading_banks arr) None"
    by simp
  then have "replicate (leading_banks arr) None @ drop (leading_banks arr) arr =
      replicate (leading_banks arr + (length arr - leading_banks arr)) None"
    by (simp only: replicate_add)
  with le show ?thesis by simp
qed

lemma prefix_filled_map: "prefix_filled (map (map_option f) arr) = prefix_filled arr"
  by (induction arr rule: prefix_filled.induct) (simp_all add: list_all_iff)

subsection \<open>Runs of constructions and destructions\<close>

lemma ctor_fields:
  "m_srefCount (MemoryInitDestroy_ctor cfg st) = m_srefCount st + 1"
  "inits (MemoryInitDestroy_ctor cfg st) = inits st + (if m_srefCount st = 0 then 1 else 0)"
  "destroys (MemoryInitDestroy_ctor cfg st) = destroys st"
  by (simp_all add: MemoryInitDestroy_ctor_def memory_init_def Let_def)

lemma dtor_fields:
  "m_srefCount (MemoryInitDestroy_dtor st) = m_srefCount st - 1"
  "inits (MemoryInitDestroy_dtor st) = inits st"
  "destroys (MemoryInitDestroy_dtor st) = destroys st + (if m_srefCount st = 1 then 1 else 0)"
  by (simp_all add: MemoryInitDestroy_dtor_def memory_destroy_def Let_def split: prod.splits)

lemma step_fields:
  "m_srefCount (step_event cfg e st) = m_srefCount st + delta e"
  "inits (step_event cfg e st) = inits st + (if e = Construct \<and> m_srefCount st = 0 then 1 else 0)"
  "destroys (step_event cfg e st) = destroys st + (if e = Destruct \<and> m_srefCount st = 1 then 1 else 0)"
  by (cases e; simp add: ctor_fields dtor_fields)+

lemma run_fields:
  "m_srefCount (run_events cfg es st) = m_srefCount st + net es \<and>
   inits (run_events cfg es st) = inits st + starts (m_srefCount st) es \<and>
   destroys (run_events cfg es st) = destroys st + stops (m_srefCount st) es"
proof (induction es arbitrary: st)
  case Nil
  then show ?case by (simp add: net_def)
next
  case (Cons e es)
  from Cons[of "step_event cfg e st"] show ?case
    by (simp add: step_fields net_def)
qed

lemma pool_sizes_length: "length (pool_sizes cfg) = MAX_ALLOCATORS cfg"
  by (simp add: pool_sizes_def)

lemma pool_sizes_filled: "prefix_filled (pool_sizes cfg)"
  by (rule all_Some_prefix_filled) (simp add: pool_sizes_def list_all_iff)

lemma replicate_None_filled: "prefix_filled (replicate n (None :: 'a option))"
  by (cases n) (simp_all add: list_all_iff)

lemma boot_inv_filled: "boot_inv cfg st \<Longrightarrow> prefix_filled (allocators st)"
proof -
  assume b: "boot_inv cfg st"
  then have "prefix_filled (registry_sizes st)"
    by (simp add: boot_inv_def pool_sizes_filled replicate_None_filled)
  then show ?thesis by (simp add: registry_sizes_def prefix_filled_map)
qed

lemma boot_inv_ctor:
  assumes b: "boot_inv cfg st"
  shows "boot_inv cfg (MemoryInitDestroy_ctor cfg st)"
proof (cases "m_srefCount st = 0")
  case True
  let ?st1 = "st\<lparr>m_srefCount := m_srefCount st + 1\<rparr>"
  have c: "MemoryInitDestroy_ctor cfg st = memory_init cfg ?st1"
    using True by (simp add: MemoryInitDestroy_ctor_def Let_def)
  from b have len: "length (allocators ?st1) = MAX_ALLOCATORS cfg" by (simp add: boot_inv_def)
  have l: "length (allocators (memory_init cfg ?st1)) = MAX_ALLOCATORS cfg"
    using len by (simp add: memory_init_def insert_apply_length)
  have m: "m_srefCount (memory_init cfg ?st1) = 1" using True by (simp add: memory_init_def)
  show ?thesis
  proof (cases "pool cfg = NO_POOL")
    case p: True
    from b True have "registry_sizes st = replicate (MAX_ALLOCATORS cfg) None"
      by (simp add: boot_inv_def)
    with p have "registry_sizes (memory_init cfg ?st1) = replicate (MAX_ALLOCATORS cfg) None"
      by (simp add: registry_sizes_def memory_init_nopool)
    with p l m show ?thesis unfolding c by (simp add: boot_inv_def)
  next
    case p: False
    from memory_init_sizes[OF p len] p l m show ?thesis unfolding c by (simp add: boot_inv_def)
  qed
next
  case False
  then have c: "MemoryInitDestroy_ctor cfg st = st\<lparr>m_srefCount := m_srefCount st + 1\<rparr>"
    by (simp add: MemoryInitDestroy_ctor_def Let_def)
  from b False show ?thesis unfolding c by (simp add: boot_inv_def registry_sizes_def)
qed

lemma boot_inv_dtor:
  assumes b: "boot_inv cfg st" and pos: "0 < m_srefCount st"
  shows "boot_inv cfg (MemoryInitDestroy_dtor st)"
proof (cases "m_srefCount st = 1")
  case True
  let ?st1 = "st\<lparr>m_srefCount := m_srefCount st - 1\<rparr>"
  have c: "MemoryInitDestroy_dtor st = memory_destroy ?st1"
    using True by (simp add: MemoryInitDestroy_dtor_def Let_def)
  from b have len: "length (allocators st) = MAX_ALLOCATORS cfg" by (simp add: boot_inv_def)
  have "allocators (memory_destroy ?st1) = replicate (length (allocators st)) None"
    using teardown_all[OF boot_inv_filled[OF b]] by (simp add: memory_destroy_fields(1))
  with len have a: "allocators (memory_destroy ?st1) = replicate (MAX_ALLOCATORS cfg) None"
    by simp
  have m: "m_srefCount (memory_destroy ?st1) = 0"
    using True by (simp add: memory_destroy_fields(3))
  from a m show ?thesis unfolding c by (simp add: boot_inv_def registry_sizes_def)
next
  case False
  then have c: "MemoryInitDestroy_dtor st = st\<lparr>m_srefCount := m_srefCount st - 1\<rparr>"
    by (simp add: MemoryInitDestroy_dtor_def Let_def)
  from b False pos show ?thesis unfolding c by (simp add: boot_inv_def registry_sizes_def)
qed

lemma boot_inv_run:
  "boot_inv cfg st \<Longrightarrow> balanced (m_srefCount st) es \<Longrightarrow> boot_inv cfg (run_events cfg es st)"
proof (induction es arbitrary: st)
  case Nil
  then show ?case by simp
next
  case (Cons e es)
  have s: "boot_inv cfg (step_event cfg e st)"
  proof (cases e)
    case Construct
    with Cons.prems(1) show ?thesis by (simp add: boot_inv_ctor)
  next
    case Destruct
    with Cons.prems(2) have "0 < m_srefCount st" by simp
    with Cons.prems(1) Destruct show ?thesis by (simp add: boot_inv_dtor)
  qed
  from Cons.prems(2) have "balanced (m_srefCount (step_event cfg e st)) es"
    by (simp add: step_fields)
  from Cons.IH[OF s this] show ?case by simp
qed

lemma boot_inv_start: "boot_inv cfg (start_state cfg heap)"
  by (simp add: boot_inv_def start_state_def registry_sizes_def)

lemma run_live:
  "0 < m_srefCount st \<Longrightarrow> live_inside (m_srefCount st) es \<Longrightarrow>
   inits (run_events cfg es st) = inits st \<and>
   destroys (run_events cfg es st) =
     destroys st + (if m_srefCount (run_events cfg es st) = 0 then 1 else 0)"
proof (induction es arbitrary: st)
  case Nil
  then show ?case by simp
next
  case (Cons e es)
  show ?case
  proof (cases es)
    case Nil
    with Cons.prems show ?thesis
      by (cases e) (auto simp: ctor_fields dtor_fields)
  next
    case (Cons e' es')
    with Cons.prems have pos: "0 < m_srefCount (step_event cfg e st)"
      and live: "live_inside (m_srefCount (step_event cfg e st)) es"
      by (simp_all add: step_fields)
    from Cons.IH[OF pos live] Cons.prems Cons show ?thesis
      by (cases e) (auto simp: ctor_fields dtor_fields)
  qed
qed

lemma run_once:
  assumes z: "m_srefCount st = 0" and ne: "es \<noteq> []" and live: "live_inside 0 es"
  shows "inits (run_events cfg es st) = inits st + 1 \<and>
      destroys (run_events cfg es st) =
        destroys st + (if m_srefCount (run_events cfg es st) = 0 then 1 else 0)"
proof -
  from ne obtain e es' where es: "es = e # es'" by (cases es) auto
  show ?thesis
  proof (cases es')
    case Nil
    with es z live show ?thesis by (cases e) (auto simp: ctor_fields dtor_fields)
  next
    case (Cons e' es'')
    with es z live have e: "e = Construct" by (cases e) auto
    have pos: "0 < m_srefCount (step_event cfg e st)" using e z by (simp add: ctor_fields)
    have l: "live_inside (m_srefCount (step_event cfg e st)) es'"
      using es Cons live z e by (simp add: ctor_fields)
    from run_live[OF pos l] es e z show ?thesis by (simp add: ctor_fields)
  qed
qed

lemma pool_sizes_cfgS:
  "pool_sizes cfgS = [Some 8, Some 16, Some 32, Some 64, Some 128, Some 256, Some 300, Some 400]"
proof -
  have "pool cfgS \<noteq> NO_POOL" by (simp add: cfgS_def)
  from bootstrap_pool_sizes[OF this, of 0] have "pool_sizes cfgS = registry_sizes (bootstrap cfgS 0)"
    by (simp add: pool_sizes_def)
  then show ?thesis
    by (simp add: bootS registry_sizes_def bankS_def GetBlockSize_def)
qed

subsection \<open>Reference-counted bootstrap\<close>

text \<open>
  C9 (as amended). Bootstrap is reference-counted, but banks are not created exactly once
  across any sequence of constructions and destructions.
  (a) A construction that finds the counter different from 0 only increments it, and a
  destruction that does not bring the counter to 0 only decrements it.
  (b) A construction that finds the counter at 0 sets it to 1 and runs \<^verbatim>\<open>memory_init\<close>: in
  a pool configuration every Registry slot then holds a bank of the pool's block size for
  that slot; without a pool the Registry is left as it was.
  (c) A destruction that brings the counter to 0 runs \<^verbatim>\<open>memory_destroy\<close>: every bank up
  to the first null slot is deleted and its slot nulled, and the blocks a Dynamic bank
  holds go back to the heap.
  (d) Over any run from program start the counter is the number of constructions less the
  number of destructions, \<^verbatim>\<open>memory_init\<close> has run once for every construction that found no
  live object and \<^verbatim>\<open>memory_destroy\<close> once for every destruction of the last live object.
  (e) If the run never destroys an object that does not exist, then after it the Registry
  holds the pool if the configuration has one and an object is alive, and is empty
  otherwise.
  (f) From any state with the counter at 0, a non-empty run that keeps an object alive
  until its last event runs \<^verbatim>\<open>memory_init\<close> exactly once and \<^verbatim>\<open>memory_destroy\<close> exactly once
  if it ends with the counter back at 0, and not at all otherwise.
\<close>

theorem refcount_lifecycle:
  "(m_srefCount st \<noteq> 0 \<longrightarrow>
      MemoryInitDestroy_ctor cfg st = st\<lparr>m_srefCount := m_srefCount st + 1\<rparr>) \<and>
   (m_srefCount st \<noteq> 1 \<longrightarrow>
      MemoryInitDestroy_dtor st = st\<lparr>m_srefCount := m_srefCount st - 1\<rparr>) \<and>
   (m_srefCount st = 0 \<longrightarrow>
      m_srefCount (MemoryInitDestroy_ctor cfg st) = 1 \<and>
      (pool cfg \<noteq> NO_POOL \<and> length (allocators st) = MAX_ALLOCATORS cfg \<longrightarrow>
         registry_sizes (MemoryInitDestroy_ctor cfg st) = pool_sizes cfg) \<and>
      (pool cfg = NO_POOL \<longrightarrow>
         allocators (MemoryInitDestroy_ctor cfg st) = allocators st)) \<and>
   (m_srefCount st = 1 \<longrightarrow>
      m_srefCount (MemoryInitDestroy_dtor st) = 0 \<and>
      allocators (MemoryInitDestroy_dtor st) =
        replicate (leading_banks (allocators st)) None @
        drop (leading_banks (allocators st)) (allocators st) \<and>
      raw_heap (MemoryInitDestroy_dtor st) =
        raw_heap st +
        sum_list (map released (present (take (leading_banks (allocators st)) (allocators st))))) \<and>
   m_srefCount (run_events cfg es (start_state cfg heap)) = net es \<and>
   inits (run_events cfg es (start_state cfg heap)) = starts 0 es \<and>
   destroys (run_events cfg es (start_state cfg heap)) = stops 0 es \<and>
   (balanced 0 es \<longrightarrow>
      registry_sizes (run_events cfg es (start_state cfg heap)) =
        (if pool cfg \<noteq> NO_POOL \<and> 0 < net es then pool_sizes cfg
         else replicate (MAX_ALLOCATORS cfg) None)) \<and>
   (m_srefCount st = 0 \<and> es \<noteq> [] \<and> live_inside 0 es \<longrightarrow>
      inits (run_events cfg es st) = inits st + 1 \<and>
      destroys (run_events cfg es st) =
        destroys st + (if m_srefCount (run_events cfg es st) = 0 then 1 else 0))"
proof -
  let ?st1 = "st\<lparr>m_srefCount := m_srefCount st + 1\<rparr>"
  let ?st2 = "st\<lparr>m_srefCount := m_srefCount st - 1\<rparr>"
  let ?run = "run_events cfg es (start_state cfg heap)"
  have a1: "m_srefCount st \<noteq> 0 \<longrightarrow> MemoryInitDestroy_ctor cfg st = ?st1"
    by (simp add: MemoryInitDestroy_ctor_def Let_def)
  have a2: "m_srefCount st \<noteq> 1 \<longrightarrow> MemoryInitDestroy_dtor st = ?st2"
    by (simp add: MemoryInitDestroy_dtor_def Let_def)
  have b: "m_srefCount (MemoryInitDestroy_ctor cfg st) = 1 \<and>
      (pool cfg \<noteq> NO_POOL \<and> length (allocators st) = MAX_ALLOCATORS cfg \<longrightarrow>
         registry_sizes (MemoryInitDestroy_ctor cfg st) = pool_sizes cfg) \<and>
      (pool cfg = NO_POOL \<longrightarrow>
         allocators (MemoryInitDestroy_ctor cfg st) = allocators st)"
    if z: "m_srefCount st = 0"
  proof -
    have c: "MemoryInitDestroy_ctor cfg st = memory_init cfg ?st1"
      using z by (simp add: MemoryInitDestroy_ctor_def Let_def)
    have "m_srefCount (MemoryInitDestroy_ctor cfg st) = 1"
      using z by (simp add: ctor_fields)
    moreover have "registry_sizes (MemoryInitDestroy_ctor cfg st) = pool_sizes cfg"
      if "pool cfg \<noteq> NO_POOL" "length (allocators st) = MAX_ALLOCATORS cfg"
      unfolding c using that by (intro memory_init_sizes) simp_all
    moreover have "allocators (MemoryInitDestroy_ctor cfg st) = allocators st"
      if "pool cfg = NO_POOL"
      unfolding c using that by (simp add: memory_init_nopool)
    ultimately show ?thesis by simp
  qed
  have c: "m_srefCount (MemoryInitDestroy_dtor st) = 0 \<and>
      allocators (MemoryInitDestroy_dtor st) =
        replicate (leading_banks (allocators st)) None @
        drop (leading_banks (allocators st)) (allocators st) \<and>
      raw_heap (MemoryInitDestroy_dtor st) =
        raw_heap st +
        sum_list (map released (present (take (leading_banks (allocators st)) (allocators st))))"
    if o: "m_srefCount st = 1"
  proof -
    have d: "MemoryInitDestroy_dtor st = memory_destroy ?st2"
      using o by (simp add: MemoryInitDestroy_dtor_def Let_def)
    show ?thesis unfolding d using o by (simp add: memory_destroy_fields)
  qed
  have d: "m_srefCount ?run = net es \<and> inits ?run = starts 0 es \<and> destroys ?run = stops 0 es"
    using run_fields[of cfg es "start_state cfg heap"] by (simp add: start_state_def)
  have e: "registry_sizes ?run =
        (if pool cfg \<noteq> NO_POOL \<and> 0 < net es then pool_sizes cfg
         else replicate (MAX_ALLOCATORS cfg) None)"
    if bal: "balanced 0 es"
  proof -
    have "balanced (m_srefCount (start_state cfg heap)) es"
      using bal by (simp add: start_state_def)
    from boot_inv_run[OF boot_inv_start this] d show ?thesis by (simp add: boot_inv_def)
  qed
  have f: "m_srefCount st = 0 \<and> es \<noteq> [] \<and> live_inside 0 es \<longrightarrow>
      inits (run_events cfg es st) = inits st + 1 \<and>
      destroys (run_events cfg es st) =
        destroys st + (if m_srefCount (run_events cfg es st) = 0 then 1 else 0)"
    using run_once[of st es cfg] by simp
  from b have b': "m_srefCount st = 0 \<longrightarrow>
      m_srefCount (MemoryInitDestroy_ctor cfg st) = 1 \<and>
      (pool cfg \<noteq> NO_POOL \<and> length (allocators st) = MAX_ALLOCATORS cfg \<longrightarrow>
         registry_sizes (MemoryInitDestroy_ctor cfg st) = pool_sizes cfg) \<and>
      (pool cfg = NO_POOL \<longrightarrow>
         allocators (MemoryInitDestroy_ctor cfg st) = allocators st)" by (rule impI)
  from c have c': "m_srefCount st = 1 \<longrightarrow>
      m_srefCount (MemoryInitDestroy_dtor st) = 0 \<and>
      allocators (MemoryInitDestroy_dtor st) =
        replicate (leading_banks (allocators st)) None @
        drop (leading_banks (allocators st)) (allocators st) \<and>
      raw_heap (MemoryInitDestroy_dtor st) =
        raw_heap st +
        sum_list (map released (present (take (leading_banks (allocators st)) (allocators st))))"
    by (rule impI)
  from e have e': "balanced 0 es \<longrightarrow>
      registry_sizes ?run =
        (if pool cfg \<noteq> NO_POOL \<and> 0 < net es then pool_sizes cfg
         else replicate (MAX_ALLOCATORS cfg) None)" by (rule impI)
  from d have d1: "m_srefCount ?run = net es" and d2: "inits ?run = starts 0 es"
    and d3: "destroys ?run = stops 0 es" by simp_all
  from a1 a2 b' c' d1 d2 d3 e' f show ?thesis by (intro conjI)
qed

theorem refcount_lifecycle_witness:
  "MemoryInitDestroy_ctor cfgS (bootstrap cfgS 0) = (bootstrap cfgS 0)\<lparr>m_srefCount := 2\<rparr> \<and>
   MemoryInitDestroy_dtor (start_state cfgS 0) = (start_state cfgS 0)\<lparr>m_srefCount := - 1\<rparr> \<and>
   registry_sizes (MemoryInitDestroy_ctor cfgS (start_state cfgS 0)) =
     [Some 8, Some 16, Some 32, Some 64, Some 128, Some 256, Some 300, Some 400] \<and>
   allocators (MemoryInitDestroy_dtor (bootstrap cfgS 0)) = replicate 8 None \<and>
   registry_sizes (run_events cfgS [Construct, Construct, Destruct] (start_state cfgS 0)) =
     [Some 8, Some 16, Some 32, Some 64, Some 128, Some 256, Some 300, Some 400] \<and>
   registry_sizes (run_events cfgS [Construct, Construct, Destruct, Destruct] (start_state cfgS 0)) =
     replicate 8 None \<and>
   inits (run_events cfgS [Construct, Construct, Destruct, Destruct] (start_state cfgS 0)) = 1 \<and>
   destroys (run_events cfgS [Construct, Construct, Destruct, Destruct] (start_state cfgS 0)) = 1"
proof -
  note A = refcount_lifecycle[where st = "bootstrap cfgS 0" and cfg = cfgS
      and es = "[Construct, Construct, Destruct]" and heap = 0]
  note B = refcount_lifecycle[where st = "start_state cfgS 0" and cfg = cfgS
      and es = "[Construct, Construct, Destruct, Destruct]" and heap = 0]
  have cA: "m_srefCount (bootstrap cfgS 0) = 1" by (simp add: bootS)
  have cB: "m_srefCount (start_state cfgS 0) = 0" by (simp add: start_state_def)
  have p: "pool cfgS \<noteq> NO_POOL" "MAX_ALLOCATORS cfgS = 8" by (simp_all add: cfgS_def)
  have lB: "length (allocators (start_state cfgS 0)) = MAX_ALLOCATORS cfgS"
    by (simp add: start_state_def)
  have lead: "leading_banks (allocators (bootstrap cfgS 0)) = 8"
    by (simp add: bootS leading_banks_def)
  have len: "length (allocators (bootstrap cfgS 0)) = 8" by (simp add: bootS)
  have 1: "MemoryInitDestroy_ctor cfgS (bootstrap cfgS 0) = (bootstrap cfgS 0)\<lparr>m_srefCount := 2\<rparr>"
    using A[THEN conjunct1] cA by simp
  have 2: "MemoryInitDestroy_dtor (start_state cfgS 0) = (start_state cfgS 0)\<lparr>m_srefCount := - 1\<rparr>"
    using B[THEN conjunct2, THEN conjunct1] cB by simp
  have 3: "registry_sizes (MemoryInitDestroy_ctor cfgS (start_state cfgS 0)) =
     [Some 8, Some 16, Some 32, Some 64, Some 128, Some 256, Some 300, Some 400]"
    using B[THEN conjunct2, THEN conjunct2, THEN conjunct1] cB p(1) lB
    by (simp add: pool_sizes_cfgS)
  have 4: "allocators (MemoryInitDestroy_dtor (bootstrap cfgS 0)) = replicate 8 None"
    using A[THEN conjunct2, THEN conjunct2, THEN conjunct2, THEN conjunct1] cA lead len
    by simp
  have 5: "registry_sizes (run_events cfgS [Construct, Construct, Destruct] (start_state cfgS 0)) =
     [Some 8, Some 16, Some 32, Some 64, Some 128, Some 256, Some 300, Some 400]"
    using A[THEN conjunct2, THEN conjunct2, THEN conjunct2, THEN conjunct2, THEN conjunct2,
        THEN conjunct2, THEN conjunct2, THEN conjunct1] p(1)
    by (simp add: net_def pool_sizes_cfgS)
  have 6: "registry_sizes (run_events cfgS [Construct, Construct, Destruct, Destruct] (start_state cfgS 0)) =
     replicate 8 None"
    using B[THEN conjunct2, THEN conjunct2, THEN conjunct2, THEN conjunct2, THEN conjunct2,
        THEN conjunct2, THEN conjunct2, THEN conjunct1] p(2)
    by (simp add: net_def)
  have 7: "inits (run_events cfgS [Construct, Construct, Destruct, Destruct] (start_state cfgS 0)) = 1 \<and>
   destroys (run_events cfgS [Construct, Construct, Destruct, Destruct] (start_state cfgS 0)) = 1"
    using B[THEN conjunct2, THEN conjunct2, THEN conjunct2, THEN conjunct2, THEN conjunct2,
        THEN conjunct2, THEN conjunct2, THEN conjunct2] cB
      B[THEN conjunct2, THEN conjunct2, THEN conjunct2, THEN conjunct2, THEN conjunct1]
    by (simp add: start_state_def net_def)
  from 1 2 3 4 5 6 7 show ?thesis by (intro conjI) simp_all
qed

text \<open>Two lifetimes of the init object that do not overlap: \<^verbatim>\<open>memory_init\<close> and
  \<^verbatim>\<open>memory_destroy\<close> both run twice.\<close>

theorem refcount_lifecycle_counterexample:
  "inits (run_events cfgS [Construct, Destruct, Construct, Destruct] (start_state cfgS 0)) = 2 \<and>
   destroys (run_events cfgS [Construct, Destruct, Construct, Destruct] (start_state cfgS 0)) = 2"
  by (simp add: run_fields start_state_def del: run_events.simps)

subsection \<open>The transient bank of a full Registry\<close>

text \<open>
  C7. Without a pool and with both Registry slots taken (by the banks of 128 and of 8
  bytes), a request for 20 bytes builds a bank of 32 bytes that cannot be inserted: the
  call returns null and the bank stays behind, owned by nobody.
\<close>

theorem transient_bank_orphaned:
  "returns_null (memory_alloc 3 cfgN (allocs 3 cfgN (bootstrap cfgN 1000) [100, 1]) 20) \<and>
   registry_sizes (allocs 3 cfgN (bootstrap cfgN 1000) [100, 1]) = [Some 128, Some 8] \<and>
   orphans (allocs 3 cfgN (bootstrap cfgN 1000) [100, 1]) = [] \<and>
   orphans (alloc_state 3 cfgN (allocs 3 cfgN (bootstrap cfgN 1000) [100, 1]) 20) =
     [new_Allocator cfgN 32]"
  unfolding bootN
  apply (simp add: numeral_3_eq_3 alloc_state_def allocs.simps returns_null_def)
  apply (simp add: cfgN_def alloc_defs registry_sizes_def)
  done

subsection \<open>The spill-up test without a pool\<close>

text \<open>
  C1. Without a pool and with an empty raw heap, the first request builds the bank of 8
  bytes in slot 0, finds it exhausted and reads the block size of the last Registry
  slot, which is still null. The same happens with a full heap at the third request of
  one byte, the bank of 8 bytes having two blocks.
\<close>

theorem spill_check_null_deref:
  "registry_sizes (bootstrap cfgN 0) = [None, None] \<and>
   memory_alloc 3 cfgN (bootstrap cfgN 0) 1 = Some (Inl NullDeref) \<and>
   registry_sizes (allocs 3 cfgN (bootstrap cfgN 1000) [1, 1]) = [Some 8, None] \<and>
   memory_alloc 3 cfgN (allocs 3 cfgN (bootstrap cfgN 1000) [1, 1]) 1 = Some (Inl NullDeref)"
  unfolding bootN
  apply (simp add: numeral_3_eq_3 registry_sizes_def alloc_state_def allocs.simps)
  apply (simp add: cfgN_def alloc_defs)
  done

subsection \<open>The Stats totals\<close>

lemma u32_add_left: "u32 (u32 a + b) = u32 (a + b)"
  by (simp add: u32_def mod_add_left_eq)

lemma used_loop_sum:
  "list_all (\<lambda>x. x \<noteq> None) arr \<Longrightarrow> t < 2 ^ 32 \<Longrightarrow>
   used_loop arr t = Inr (u32 (t + sum_list (map (\<lambda>a. in_use a * block_size a) (present arr))))"
proof (induction arr t rule: used_loop.induct)
  case (1 t)
  then show ?case by (simp add: u32_def)
next
  case (2 rest t)
  then show ?case by simp
next
  case (3 a rest t)
  have "u32 (t + GetNumAllocations a * GetBlockSize a) < 2 ^ 32" by (simp add: u32_def)
  with 3 show ?case
    by (simp add: u32_add_left GetNumAllocations_def GetBlockSize_def add.assoc)
qed

lemma available_loop_sum:
  "list_all (\<lambda>x. x \<noteq> None) arr \<Longrightarrow> t < 2 ^ 32 \<Longrightarrow>
   available_loop arr t =
     Inr (u32 (t + sum_list (map (\<lambda>a. capacity a * block_size a) (present arr))))"
proof (induction arr t rule: available_loop.induct)
  case (1 t)
  then show ?case by (simp add: u32_def)
next
  case (2 rest t)
  then show ?case by simp
next
  case (3 a rest t)
  have "u32 (t + GetTotalBlocks a * GetBlockSize a) < 2 ^ 32" by (simp add: u32_def)
  with 3 show ?case
    by (simp add: u32_add_left GetTotalBlocks_def GetBlockSize_def add.assoc)
qed

lemma reachable_pool_sizes:
  assumes "reachable cfg st" and p: "pool cfg \<noteq> NO_POOL"
  shows "registry_sizes st = pool_sizes cfg"
  using assms(1)
proof (induction rule: reachable.induct)
  case (reach_boot heap)
  from bootstrap_pool_sizes[OF p] show ?case by (simp add: pool_sizes_def)
next
  case (reach_alloc st fuel sz st' q)
  from memory_alloc_pool_shape[OF p reach_alloc(2)] reach_alloc(3) show ?case by simp
next
  case (reach_free st q st')
  from memory_free_shape[OF reach_free(2)] reach_free(3) show ?case by simp
next
  case (reach_realloc st fuel q sz st' r)
  from memory_realloc_sizes[OF reach_realloc(2)] show ?case
  proof
    assume "registry_sizes st' = registry_sizes st"
    with reach_realloc(3) show ?thesis by simp
  next
    assume "\<exists>st1 n. memory_alloc fuel cfg st sz = Some (Inr (st1, n)) \<and>
                   registry_sizes st' = registry_sizes st1"
    then obtain st1 n where a: "memory_alloc fuel cfg st sz = Some (Inr (st1, n))"
      and e: "registry_sizes st' = registry_sizes st1" by (elim exE conjE)
    from memory_alloc_pool_shape[OF p a] e reach_realloc(3) show ?thesis by simp
  qed
next
  case (reach_write st q off v)
  then show ?case by (simp add: client_write_shape)
qed

lemma registry_all_Some:
  "list_all (\<lambda>x. x \<noteq> None) (registry_sizes st) = list_all (\<lambda>x. x \<noteq> None) (allocators st)"
  by (simp add: registry_sizes_def list_all_iff)

lemma reachable_pool_filled:
  assumes "reachable cfg st" and p: "pool cfg \<noteq> NO_POOL"
  shows "list_all (\<lambda>x. x \<noteq> None) (allocators st)"
proof -
  have "list_all (\<lambda>x. x \<noteq> None) (pool_sizes cfg)" by (simp add: pool_sizes_def list_all_iff)
  then have "list_all (\<lambda>x. x \<noteq> None) (registry_sizes st)"
    unfolding reachable_pool_sizes[OF assms] .
  then show ?thesis unfolding registry_all_Some .
qed

lemma replicate_16:
  "replicate 16 x = [x, x, x, x, x, x, x, x, x, x, x, x, x, x, x, x]"
  by (simp add: numeral_eq_Suc)

lemma bootD:
  "allocators (bootstrap cfgD h) =
     map (\<lambda>s. Some (DynamicAllocatorPool s 10000))
       [8, 16, 32, 64, 128, 256, 300, 400, 500, 4096, 8192, 16384, 32768, 65536, 131072,
        262144]"
  by (simp add: cfgD_def boot_defs replicate_16)

lemma statsS_12:
  "used_bytes (alloc_state 3 cfgS (bootstrap cfgS 0) 12) = 16"
  "available_bytes (alloc_state 3 cfgS (bootstrap cfgS 0) 12) = 4816"
  unfolding bootS
  apply (simp_all add: numeral_3_eq_3 alloc_state_def used_bytes_def available_bytes_def)
  apply (simp_all add: cfgS_def alloc_defs bankS_def)
  done

text \<open>
  C2 (as amended). In a state in which every Registry slot holds a bank, and so in every
  state a pool configuration reaches by \<^verbatim>\<open>alloc\<close>, \<^verbatim>\<open>free\<close> and \<^verbatim>\<open>realloc\<close> calls,
  \<^verbatim>\<open>getTotalMemoryUsed\<close> returns the sum over all banks of in-use count times block size
  and \<^verbatim>\<open>getTotalMemoryAvailable\<close> the sum over all banks of capacity times block size,
  both reduced modulo \<open>2\<^sup>3\<^sup>2\<close> (the totals are accumulated in a \<^verbatim>\<open>size32_type\<close>); a total
  below \<open>2\<^sup>3\<^sup>2\<close> is returned as it is.
\<close>

theorem stats_totals:
  "(list_all (\<lambda>x. x \<noteq> None) (allocators st) \<longrightarrow>
      getTotalMemoryUsed st = Inr (used_bytes st mod 2 ^ 32) \<and>
      getTotalMemoryAvailable st = Inr (available_bytes st mod 2 ^ 32) \<and>
      (used_bytes st < 2 ^ 32 \<longrightarrow> getTotalMemoryUsed st = Inr (used_bytes st)) \<and>
      (available_bytes st < 2 ^ 32 \<longrightarrow> getTotalMemoryAvailable st = Inr (available_bytes st))) \<and>
   (reachable cfg st \<and> pool cfg \<noteq> NO_POOL \<longrightarrow> list_all (\<lambda>x. x \<noteq> None) (allocators st))"
proof -
  have a: "getTotalMemoryUsed st = Inr (used_bytes st mod 2 ^ 32) \<and>
      getTotalMemoryAvailable st = Inr (available_bytes st mod 2 ^ 32)"
    if f: "list_all (\<lambda>x. x \<noteq> None) (allocators st)"
    using used_loop_sum[OF f, of 0] available_loop_sum[OF f, of 0]
    by (simp add: getTotalMemoryUsed_def getTotalMemoryAvailable_def used_bytes_def
        available_bytes_def u32_def)
  have b: "reachable cfg st \<and> pool cfg \<noteq> NO_POOL \<longrightarrow>
      list_all (\<lambda>x. x \<noteq> None) (allocators st)"
    using reachable_pool_filled by blast
  from a have "list_all (\<lambda>x. x \<noteq> None) (allocators st) \<longrightarrow>
      getTotalMemoryUsed st = Inr (used_bytes st mod 2 ^ 32) \<and>
      getTotalMemoryAvailable st = Inr (available_bytes st mod 2 ^ 32) \<and>
      (used_bytes st < 2 ^ 32 \<longrightarrow> getTotalMemoryUsed st = Inr (used_bytes st)) \<and>
      (available_bytes st < 2 ^ 32 \<longrightarrow> getTotalMemoryAvailable st = Inr (available_bytes st))"
    by simp
  with b show ?thesis by (rule conjI[rotated])
qed

theorem stats_totals_witness:
  "getTotalMemoryUsed (alloc_state 3 cfgS (bootstrap cfgS 0) 12) = Inr 16 \<and>
   getTotalMemoryAvailable (alloc_state 3 cfgS (bootstrap cfgS 0) 12) = Inr 4816"
proof -
  let ?st = "alloc_state 3 cfgS (bootstrap cfgS 0) 12"
  note t = stats_totals[of ?st cfgS]
  have r: "reachable cfgS ?st" by (rule reachable_alloc_state[OF reach_boot])
  have p: "pool cfgS \<noteq> NO_POOL" by (simp add: cfgS_def)
  from t[THEN conjunct2] r p have f: "list_all (\<lambda>x. x \<noteq> None) (allocators ?st)" by simp
  from t[THEN conjunct1] f show ?thesis by (simp add: statsS_12)
qed

text \<open>A Dynamic pool of sixteen banks of ten thousand blocks each: the capacities add
  up to more than \<open>2\<^sup>3\<^sup>2\<close> bytes, and the query reports the total less \<open>2\<^sup>3\<^sup>2\<close>.\<close>

theorem stats_totals_counterexample:
  "reachable cfgD (bootstrap cfgD 0) \<and>
   available_bytes (bootstrap cfgD 0) = 5218960000 \<and>
   getTotalMemoryAvailable (bootstrap cfgD 0) = Inr 923992704"
proof -
  have "reachable cfgD (bootstrap cfgD 0)" by (rule reach_boot)
  moreover have "available_bytes (bootstrap cfgD 0) = 5218960000"
    by (simp add: available_bytes_def bootD DynamicAllocatorPool_def)
  moreover have "getTotalMemoryAvailable (bootstrap cfgD 0) = Inr 923992704"
    by (simp add: getTotalMemoryAvailable_def bootD DynamicAllocatorPool_def
        GetTotalBlocks_def GetBlockSize_def u32_def)
  ultimately show ?thesis by (intro conjI)
qed

subsection \<open>Termination of spill-up\<close>












end
